theory Spec2Isabelle
  imports Main
begin

section \<open>Text primitives of the Python runtime\<close>

text \<open>
  A Python \<^verbatim>\<open>str\<close> is modelled as a \<^typ>\<open>string\<close>: a list of characters, each character
  read as a code point in the range 0..255. Offsets are list indices, as Python's offsets
  are code-point indices. The character classes below are those of Python 3 on that range
  (\<^verbatim>\<open>str.isspace\<close>, \<^verbatim>\<open>str.isupper\<close>, the line boundaries of \<^verbatim>\<open>str.splitlines\<close>, and the
  classes \<^verbatim>\<open>\s\<close>, \<^verbatim>\<open>\w\<close>, \<^verbatim>\<open>\d\<close> of the \<^verbatim>\<open>re\<close> module for \<^verbatim>\<open>str\<close> patterns).
\<close>

definition ascii_upper :: string where
  "ascii_upper = ''ABCDEFGHIJKLMNOPQRSTUVWXYZ''"

definition ascii_lower :: string where
  "ascii_lower = ''abcdefghijklmnopqrstuvwxyz''"

definition ascii_digits :: string where
  "ascii_digits = ''0123456789''"

definition latin_upper :: string where
  "latin_upper = [CHR 0xC0, CHR 0xC1, CHR 0xC2, CHR 0xC3, CHR 0xC4, CHR 0xC5, CHR 0xC6, CHR 0xC7,
     CHR 0xC8, CHR 0xC9, CHR 0xCA, CHR 0xCB, CHR 0xCC, CHR 0xCD, CHR 0xCE, CHR 0xCF,
     CHR 0xD0, CHR 0xD1, CHR 0xD2, CHR 0xD3, CHR 0xD4, CHR 0xD5, CHR 0xD6,
     CHR 0xD8, CHR 0xD9, CHR 0xDA, CHR 0xDB, CHR 0xDC, CHR 0xDD, CHR 0xDE]"

definition latin_lower :: string where
  "latin_lower = [CHR 0xE0, CHR 0xE1, CHR 0xE2, CHR 0xE3, CHR 0xE4, CHR 0xE5, CHR 0xE6, CHR 0xE7,
     CHR 0xE8, CHR 0xE9, CHR 0xEA, CHR 0xEB, CHR 0xEC, CHR 0xED, CHR 0xEE, CHR 0xEF,
     CHR 0xF0, CHR 0xF1, CHR 0xF2, CHR 0xF3, CHR 0xF4, CHR 0xF5, CHR 0xF6,
     CHR 0xF8, CHR 0xF9, CHR 0xFA, CHR 0xFB, CHR 0xFC, CHR 0xFD, CHR 0xFE]"

text \<open>The remaining alphanumeric code points below 256: feminine and masculine ordinal,
  superscript digits, micro sign, vulgar fractions, sharp s and y with diaeresis.\<close>

definition latin_other_word :: string where
  "latin_other_word = [CHR 0xAA, CHR 0xB2, CHR 0xB3, CHR 0xB5, CHR 0xB9, CHR 0xBA,
     CHR 0xBC, CHR 0xBD, CHR 0xBE, CHR 0xDF, CHR 0xFF]"

definition LF :: char where "LF = CHR 0x0A"
definition CR :: char where "CR = CHR 0x0D"

text \<open>\<^verbatim>\<open>str.isspace\<close>, which is also the class \<^verbatim>\<open>\s\<close>.\<close>

definition is_space :: "char \<Rightarrow> bool" where
  "is_space c = (c \<in> set [CHR 0x09, CHR 0x0A, CHR 0x0B, CHR 0x0C, CHR 0x0D,
       CHR 0x1C, CHR 0x1D, CHR 0x1E, CHR 0x1F, CHR 0x20, CHR 0x85, CHR 0xA0])"

text \<open>The line boundaries of \<^verbatim>\<open>str.splitlines\<close>.\<close>

definition is_linebreak :: "char \<Rightarrow> bool" where
  "is_linebreak c = (c \<in> set [CHR 0x0A, CHR 0x0B, CHR 0x0C, CHR 0x0D,
       CHR 0x1C, CHR 0x1D, CHR 0x1E, CHR 0x85])"

definition is_AZ :: "char \<Rightarrow> bool" where
  "is_AZ c = (c \<in> set ascii_upper)"

definition is_az :: "char \<Rightarrow> bool" where
  "is_az c = (c \<in> set ascii_lower)"

definition is_digit :: "char \<Rightarrow> bool" where
  "is_digit c = (c \<in> set ascii_digits)"

definition is_alpha_ascii :: "char \<Rightarrow> bool" where
  "is_alpha_ascii c = (is_AZ c \<or> is_az c)"

text \<open>The class \<^verbatim>\<open>\w\<close>.\<close>

definition is_word :: "char \<Rightarrow> bool" where
  "is_word c = (is_AZ c \<or> is_az c \<or> is_digit c \<or> c = CHR ''_''
      \<or> c \<in> set latin_upper \<or> c \<in> set latin_lower \<or> c \<in> set latin_other_word)"

text \<open>\<^verbatim>\<open>str.isupper\<close> of a single character.\<close>

definition is_upper_char :: "char \<Rightarrow> bool" where
  "is_upper_char c = (is_AZ c \<or> c \<in> set latin_upper)"

text \<open>
  \<^verbatim>\<open>str.upper\<close>. Sharp s becomes two characters. The upper-case forms of the micro sign and
  of y with diaeresis lie above code point 255; they are single characters outside every
  class the program tests after upper-casing, and are left in place here.
\<close>

definition upper_char :: "char \<Rightarrow> string" where
  "upper_char c =
     (if c = CHR 0xDF then ''SS''
      else case map_of (zip (ascii_lower @ latin_lower) (ascii_upper @ latin_upper)) c of
             Some u \<Rightarrow> [u]
           | None \<Rightarrow> [c])"

definition upper :: "string \<Rightarrow> string" where
  "upper s = concat (map upper_char s)"

text \<open>\<^verbatim>\<open>str.lower\<close>.\<close>

definition lower_char :: "char \<Rightarrow> char" where
  "lower_char c =
     (case map_of (zip (ascii_upper @ latin_upper) (ascii_lower @ latin_lower)) c of
        Some l \<Rightarrow> l
      | None \<Rightarrow> c)"

definition lower :: "string \<Rightarrow> string" where
  "lower s = map lower_char s"

text \<open>\<^verbatim>\<open>s[a:b]\<close> for offsets \<open>0 \<le> a\<close>, \<open>0 \<le> b\<close>: empty when \<open>b \<le> a\<close>, cut at the end of \<open>s\<close>.\<close>

definition slice :: "'a list \<Rightarrow> nat \<Rightarrow> nat \<Rightarrow> 'a list" where
  "slice s a b = take (b - a) (drop a s)"

text \<open>\<^verbatim>\<open>str.strip()\<close>, \<^verbatim>\<open>str.lstrip()\<close> and \<^verbatim>\<open>str.strip(chars)\<close>.\<close>

definition lstrip :: "string \<Rightarrow> string" where
  "lstrip s = dropWhile is_space s"

definition strip :: "string \<Rightarrow> string" where
  "strip s = rev (dropWhile is_space (rev (dropWhile is_space s)))"

definition strip_chars :: "string \<Rightarrow> string \<Rightarrow> string" where
  "strip_chars cs s = rev (dropWhile (\<lambda>c. c \<in> set cs) (rev (dropWhile (\<lambda>c. c \<in> set cs) s)))"

text \<open>\<^verbatim>\<open>str.startswith\<close>.\<close>

definition startswith :: "string \<Rightarrow> string \<Rightarrow> bool" where
  "startswith s p = (take (length p) s = p)"

text \<open>
  \<^verbatim>\<open>str.splitlines(keepends)\<close>: the text is cut after every line boundary, a carriage return
  directly followed by a line feed counting as one boundary; a last line without a boundary
  is kept, and no empty line is added after a final boundary. The second argument is the
  line read so far.
\<close>

fun split_lines :: "bool \<Rightarrow> string \<Rightarrow> string \<Rightarrow> string list" where
  "split_lines keep cur [] = (if cur = [] then [] else [cur])"
| "split_lines keep cur [c] =
     (if is_linebreak c then [cur @ (if keep then [c] else [])] else [cur @ [c]])"
| "split_lines keep cur (c # d # cs) =
     (if c = CR \<and> d = LF then (cur @ (if keep then [c, d] else [])) # split_lines keep [] cs
      else if is_linebreak c then (cur @ (if keep then [c] else [])) # split_lines keep [] (d # cs)
      else split_lines keep (cur @ [c]) (d # cs))"

definition splitlines :: "string \<Rightarrow> string list" where
  "splitlines s = split_lines False [] s"

definition splitlines_keepends :: "string \<Rightarrow> string list" where
  "splitlines_keepends s = split_lines True [] s"

text \<open>\<^verbatim>\<open>"\n".join(lines)\<close>.\<close>

fun join_lf :: "string list \<Rightarrow> string" where
  "join_lf [] = []"
| "join_lf [l] = l"
| "join_lf (l # m # ls) = l @ LF # join_lf (m # ls)"

section \<open>The boilerplate filter (parse_CRECB_data/4-clean_record_boilerplate.py)\<close>

definition TARGET :: string where
  "TARGET = ''CONGRESSIONAL RECORD''"

definition T_LEN :: nat where
  "T_LEN = length TARGET"

text \<open>
  \<^verbatim>\<open>levenshtein_leq1(a, b)\<close>. The count of differing positions is taken over \<^verbatim>\<open>zip(a, b)\<close>;
  the loop over the deletion index returns at the first index that fits, which is the
  existence of such an index.
\<close>

definition levenshtein_leq1 :: "string \<Rightarrow> string \<Rightarrow> bool" where
  "levenshtein_leq1 a b =
     (if a = b then True
      else let la = length a; lb = length b in
        if (if la \<ge> lb then la - lb else lb - la) > 1 then False
        else if la = lb then length (filter (\<lambda>(c1, c2). c1 \<noteq> c2) (zip a b)) \<le> 1
        else let (a', b') = (if la > lb then (b, a) else (a, b)) in
          list_ex (\<lambda>i. take i b' @ drop (i + 1) b' = a') [0 ..< length b'])"

text \<open>
  \<^verbatim>\<open>re.sub(r"[^A-Z ]", "", window)\<close>: every character outside the class is a match of its
  own, and each is replaced by the empty string.
\<close>

definition window_clean :: "string \<Rightarrow> string" where
  "window_clean w = filter (\<lambda>c. is_AZ c \<or> c = CHR '' '') w"

text \<open>\<^verbatim>\<open>line_contains_fuzzy_target(line)\<close>: both loops return at the first window that fits.\<close>

definition line_contains_fuzzy_target :: "string \<Rightarrow> bool" where
  "line_contains_fuzzy_target line =
     (let up = upper line in
      list_ex (\<lambda>L. \<not> (L \<le> 0 \<or> L > length up) \<and>
          list_ex (\<lambda>i. levenshtein_leq1 (window_clean (slice up i (i + L))) TARGET)
            [0 ..< length up - L + 1])
        [T_LEN - 1, T_LEN, T_LEN + 1])"

definition clean_speech_text :: "string \<Rightarrow> string" where
  "clean_speech_text text =
     join_lf (filter (\<lambda>line. \<not> line_contains_fuzzy_target line) (splitlines text))"

text \<open>
  The Levenshtein edit distance as it is usually defined (insertion, deletion and
  substitution each cost one), for comparison with \<^const>\<open>levenshtein_leq1\<close>.
\<close>

fun edit_distance :: "'a list \<Rightarrow> 'a list \<Rightarrow> nat" where
  "edit_distance [] ys = length ys"
| "edit_distance xs [] = length xs"
| "edit_distance (x # xs) (y # ys) =
     min (min (edit_distance xs (y # ys) + 1) (edit_distance (x # xs) ys + 1))
         (edit_distance xs ys + (if x = y then 0 else 1))"

text \<open>Auxiliary notions for the properties of the filter: the number of positions at which
  two strings differ, "deleting one character of \<open>b\<close> gives \<open>a\<close>", the lines the filter
  keeps, and a list of lines without its last line when that line is empty.\<close>

definition diff_count :: "'a list \<Rightarrow> 'a list \<Rightarrow> nat" where
  "diff_count a b = length (filter (\<lambda>(c1, c2). c1 \<noteq> c2) (zip a b))"

definition del1 :: "'a list \<Rightarrow> 'a list \<Rightarrow> bool" where
  "del1 b a = (\<exists>i<length b. take i b @ drop (Suc i) b = a)"

definition kept_lines :: "string \<Rightarrow> string list" where
  "kept_lines t = filter (\<lambda>line. \<not> line_contains_fuzzy_target line) (splitlines t)"

definition chop :: "string list \<Rightarrow> string list" where
  "chop ks = (if ks \<noteq> [] \<and> last ks = [] then butlast ks else ks)"

text \<open>
  The filter as the specification words it, for comparison with
  \<^const>\<open>line_contains_fuzzy_target\<close>: a window keeps its letters and its spaces, a letter being
  a character for which \<^verbatim>\<open>str.isalpha\<close> holds; and a line with two accented letters inside
  the phrase.
\<close>

definition is_alpha :: "char \<Rightarrow> bool" where
  "is_alpha c = (is_AZ c \<or> is_az c \<or> c \<in> set latin_upper \<or> c \<in> set latin_lower
      \<or> c \<in> set [CHR 0xAA, CHR 0xB5, CHR 0xBA, CHR 0xDF, CHR 0xFF])"

definition letters_and_spaces :: "string \<Rightarrow> string" where
  "letters_and_spaces w = filter (\<lambda>c. is_alpha c \<or> c = CHR '' '') w"

definition removed_as_specified :: "string \<Rightarrow> bool" where
  "removed_as_specified line =
     (let up = upper line in
      list_ex (\<lambda>L.
          list_ex (\<lambda>i. edit_distance (letters_and_spaces (slice up i (i + L))) TARGET \<le> 1)
            [0 ..< length up + 1 - L])
        [T_LEN - 1, T_LEN, T_LEN + 1])"

definition accent_line :: string where
  "accent_line = ''CONGRESSIONAL '' @ [CHR 0xC9, CHR 0xC9] @ ''RECORD''"

section \<open>Sections and title assignment (parse_CRECB_data/3-add_debate_titles.py)\<close>

text \<open>A title block is the triple \<^verbatim>\<open>(text, start, end)\<close> that \<^verbatim>\<open>find_titles\<close> returns; a section is
  the triple \<^verbatim>\<open>(title, sec_start, sec_end)\<close> that \<^verbatim>\<open>extract_sections\<close> returns.\<close>

type_synonym title_block = "string \<times> nat \<times> nat"
type_synonym section_rec = "string \<times> nat \<times> nat"

text \<open>\<^verbatim>\<open>extract_sections(text, titles)\<close>: the loop over \<^verbatim>\<open>enumerate(titles)\<close>.\<close>

definition extract_sections :: "string \<Rightarrow> title_block list \<Rightarrow> section_rec list" where
  "extract_sections text titles =
     map (\<lambda>i. case titles ! i of (t, s, e) \<Rightarrow>
            (strip t, e,
             if i < length titles - 1 then fst (snd (titles ! (i + 1))) else length text))
       [0 ..< length titles]"

text \<open>The assignment loop of \<^verbatim>\<open>worker_process\<close>: the first section, in list order, whose
  half-open span holds \<open>pos\<close> gives the title; \<^verbatim>\<open>assigned\<close> stays empty when there is none.\<close>

fun assign_title :: "section_rec list \<Rightarrow> nat \<Rightarrow> string" where
  "assign_title [] pos = []"
| "assign_title ((t, s_start, s_end) # sections) pos =
     (if s_start \<le> pos \<and> pos < s_end then strip t else assign_title sections pos)"

text \<open>The offset of every row of a file in \<^verbatim>\<open>reconstructed\<close>, where each speech is followed by
  two line feeds, and the titles of all rows. The cleaned text and its title blocks are
  parameters here.\<close>

fun row_offsets :: "nat \<Rightarrow> string list \<Rightarrow> nat list" where
  "row_offsets n [] = []"
| "row_offsets n (speech # rows) = n # row_offsets (n + length speech + 2) rows"

definition assign_rows :: "string \<Rightarrow> title_block list \<Rightarrow> string list \<Rightarrow> string list" where
  "assign_rows cleaned_text titles speeches =
     map (assign_title (extract_sections cleaned_text titles)) (row_offsets 0 speeches)"

text \<open>Notions for the properties: the offsets of a title block, a list of title blocks in
  ascending order without overlap, and the containment test of the assignment loop.\<close>

definition tb_start :: "title_block \<Rightarrow> nat" where "tb_start b = fst (snd b)"
definition tb_end :: "title_block \<Rightarrow> nat" where "tb_end b = snd (snd b)"

definition ordered_titles :: "title_block list \<Rightarrow> bool" where
  "ordered_titles titles =
     ((\<forall>i<length titles. tb_start (titles ! i) \<le> tb_end (titles ! i)) \<and>
      (\<forall>i. Suc i < length titles \<longrightarrow> tb_end (titles ! i) \<le> tb_start (titles ! Suc i)))"

definition sec_contains :: "section_rec \<Rightarrow> nat \<Rightarrow> bool" where
  "sec_contains sec pos = (fst (snd sec) \<le> pos \<and> pos < snd (snd sec))"

definition example_titles :: "(string \<times> nat \<times> nat) list" where
  "example_titles = [(''THE FIRST BILL'' @ [LF], 0, 15), (''THE SECOND BILL'' @ [LF], 40, 56)]"

definition example_text :: string where
  "example_text = replicate 90 (CHR ''x'')"

section \<open>Regular expressions of the \<^verbatim>\<open>re\<close> module\<close>

text \<open>
  The patterns of the program are values of the datatype \<open>regex\<close>. It has the constructs the
  program's patterns use: a character of a class, the anchors \<^verbatim>\<open>^\<close> and \<^verbatim>\<open>$\<close> under
  \<^verbatim>\<open>re.MULTILINE\<close> (\<open>Bol\<close>, \<open>Eol\<close>), \<^verbatim>\<open>$\<close> without that flag (\<open>EndS\<close>), the word boundary
  \<^verbatim>\<open>\b\<close>, sequence, ordered alternative, and the greedy and the lazy repetition
  \<^verbatim>\<open>{lo,hi}\<close> (no upper bound when \<open>hi\<close> is \<open>None\<close>).
\<close>

datatype regex =
    Eps
  | Sym "char \<Rightarrow> bool"
  | Bol
  | Eol
  | EndS
  | WordB
  | Seq regex regex
  | Alt regex regex
  | Rep regex nat "nat option"
  | RepLazy regex nat "nat option"

fun dec :: "nat option \<Rightarrow> nat option" where
  "dec None = None"
| "dec (Some h) = Some (h - 1)"

text \<open>
  \<open>rm r t i\<close> lists the offsets at which a match of \<open>r\<close> that starts at offset \<open>i\<close> of \<open>t\<close> can
  end, in the order in which the backtracking matcher of \<^verbatim>\<open>re\<close> tries them: the left
  alternative before the right one, one more round of a greedy repetition before leaving
  it, leaving a lazy repetition before one more round. The head of the list is the match
  the matcher reports. A round of a repetition has to move forward; every repeated
  sub-pattern of this program consumes at least one character, so no round is lost to that
  guard (\<open>rep_bodies_consume\<close> below).
\<close>

function rm :: "regex \<Rightarrow> string \<Rightarrow> nat \<Rightarrow> nat list" where
  "rm Eps t i = [i]"
| "rm (Sym P) t i = (if i < length t \<and> P (t ! i) then [Suc i] else [])"
| "rm Bol t i = (if i = 0 \<or> t ! (i - 1) = LF then [i] else [])"
| "rm Eol t i = (if i = length t \<or> (i < length t \<and> t ! i = LF) then [i] else [])"
| "rm EndS t i = (if i = length t \<or> (Suc i = length t \<and> t ! i = LF) then [i] else [])"
| "rm WordB t i =
     (if (0 < i \<and> is_word (t ! (i - 1))) \<noteq> (i < length t \<and> is_word (t ! i)) then [i] else [])"
| "rm (Seq a b) t i = concat (map (rm b t) (rm a t i))"
| "rm (Alt a b) t i = rm a t i @ rm b t i"
| "rm (Rep r lo hi) t i =
     (if hi = Some 0 then [i]
      else concat (map (rm (Rep r (lo - 1) (dec hi)) t)
                       (filter (\<lambda>j. i < j \<and> j \<le> length t) (rm r t i)))
           @ (if lo = 0 then [i] else []))"
| "rm (RepLazy r lo hi) t i =
     (if hi = Some 0 then [i]
      else (if lo = 0 then [i] else [])
           @ concat (map (rm (RepLazy r (lo - 1) (dec hi)) t)
                       (filter (\<lambda>j. i < j \<and> j \<le> length t) (rm r t i))))"
  by pat_completeness auto
termination
  by (relation "inv_image (less_than <*lex*> less_than) (\<lambda>(r, t, i). (size r, length t - i))")
     auto

declare rm.simps(9) [simp del]
declare rm.simps(10) [simp del]

text \<open>
  \<^verbatim>\<open>pattern.finditer(t)\<close> as the list of the spans \<^verbatim>\<open>(m.start(), m.end())\<close>: the leftmost
  match from the current offset on, then the search goes on at its end. No pattern of this
  program matches the empty string (\<open>consumes\<close> below); after an empty match the search
  would go on one character further.
\<close>

function finditer_from :: "regex \<Rightarrow> string \<Rightarrow> nat \<Rightarrow> (nat \<times> nat) list" where
  "finditer_from r t i =
     (if length t < i then []
      else case rm r t i of
             [] \<Rightarrow> finditer_from r t (Suc i)
           | e # _ \<Rightarrow> (i, e) # finditer_from r t (if i < e then e else Suc i))"
  by pat_completeness auto
termination
  by (relation "measure (\<lambda>(r, t, i). Suc (length t) - i)") auto

declare finditer_from.simps [simp del]

definition finditer :: "regex \<Rightarrow> string \<Rightarrow> (nat \<times> nat) list" where
  "finditer r t = finditer_from r t 0"

text \<open>\<^verbatim>\<open>pattern.findall(t)\<close> for a pattern without groups: the matched substrings.\<close>

definition findall :: "regex \<Rightarrow> string \<Rightarrow> string list" where
  "findall r t = map (\<lambda>(s, e). slice t s e) (finditer r t)"

text \<open>\<^verbatim>\<open>pattern.sub('', t)\<close>: the text between the matches, from offset \<open>p\<close> on.\<close>

fun remove_matches :: "(nat \<times> nat) list \<Rightarrow> string \<Rightarrow> nat \<Rightarrow> string" where
  "remove_matches [] t p = drop p t"
| "remove_matches ((s, e) # ms) t p = slice t p s @ remove_matches ms t e"

definition re_sub_empty :: "regex \<Rightarrow> string \<Rightarrow> string" where
  "re_sub_empty r t = remove_matches (finditer r t) t 0"

text \<open>Shorthands for writing patterns down.\<close>

definition chr :: "char \<Rightarrow> regex" where
  "chr c = Sym (\<lambda>x. x = c)"

definition cls :: "string \<Rightarrow> regex" where
  "cls s = Sym (\<lambda>x. x \<in> set s)"

definition ncls :: "string \<Rightarrow> regex" where
  "ncls s = Sym (\<lambda>x. x \<notin> set s)"

definition seq :: "regex list \<Rightarrow> regex" where
  "seq rs = foldr Seq rs Eps"

definition lit :: "string \<Rightarrow> regex" where
  "lit s = seq (map chr s)"

fun alts :: "regex list \<Rightarrow> regex" where
  "alts [] = Sym (\<lambda>c. False)"
| "alts [r] = r"
| "alts (r # rs) = Alt r (alts rs)"

definition star :: "regex \<Rightarrow> regex" where
  "star r = Rep r 0 None"

definition plus :: "regex \<Rightarrow> regex" where
  "plus r = Rep r 1 None"

definition opt :: "regex \<Rightarrow> regex" where
  "opt r = Rep r 0 (Some 1)"

definition ws :: regex where
  "ws = Sym is_space"

definition AZ :: regex where
  "AZ = Sym is_AZ"

definition az :: regex where
  "az = Sym is_az"

definition letter_apos :: regex where
  "letter_apos = Sym (\<lambda>c. is_AZ c \<or> is_az c \<or> c = CHR 0x27)"

definition letter :: regex where
  "letter = Sym is_alpha_ascii"

definition digit :: regex where
  "digit = Sym is_digit"

definition any_but_lf :: regex where
  "any_but_lf = Sym (\<lambda>c. c \<noteq> LF)"

text \<open>A literal under \<^verbatim>\<open>re.IGNORECASE\<close>.\<close>

definition chr_ci :: "char \<Rightarrow> regex" where
  "chr_ci c = Sym (\<lambda>x. lower_char x = lower_char c)"

definition lit_ci :: "string \<Rightarrow> regex" where
  "lit_ci s = seq (map chr_ci s)"

text \<open>
  \<open>consumes r\<close>: by its shape, \<open>r\<close> has no empty match. \<open>rep_bodies_consume r\<close>: every repeated
  sub-pattern of \<open>r\<close> is of that kind.
\<close>

fun consumes :: "regex \<Rightarrow> bool" where
  "consumes Eps = False"
| "consumes (Sym P) = True"
| "consumes Bol = False"
| "consumes Eol = False"
| "consumes EndS = False"
| "consumes WordB = False"
| "consumes (Seq a b) = (consumes a \<or> consumes b)"
| "consumes (Alt a b) = (consumes a \<and> consumes b)"
| "consumes (Rep r lo hi) = (consumes r \<and> 0 < lo \<and> hi \<noteq> Some 0)"
| "consumes (RepLazy r lo hi) = (consumes r \<and> 0 < lo \<and> hi \<noteq> Some 0)"

fun rep_bodies_consume :: "regex \<Rightarrow> bool" where
  "rep_bodies_consume (Seq a b) = (rep_bodies_consume a \<and> rep_bodies_consume b)"
| "rep_bodies_consume (Alt a b) = (rep_bodies_consume a \<and> rep_bodies_consume b)"
| "rep_bodies_consume (Rep r lo hi) = (consumes r \<and> rep_bodies_consume r)"
| "rep_bodies_consume (RepLazy r lo hi) = (consumes r \<and> rep_bodies_consume r)"
| "rep_bodies_consume r = True"

section \<open>The turn scanner (speaker_scraper.py)\<close>

subsection \<open>The pattern catalog\<close>

text \<open>\<^verbatim>\<open>(?:\s\([^)]*\))?\<close>, which both branches of \<^verbatim>\<open>SPEAKER_REGEX\<close> end with.\<close>

definition paren_aside :: regex where
  "paren_aside = opt (seq [ws, chr (CHR ''(''), star (ncls '')''), chr (CHR '')'')])"

text \<open>
  \<^verbatim>\<open>SPEAKER_REGEX\<close>, compiled with \<^verbatim>\<open>re.MULTILINE\<close>, in four parts: the honorific of the
  first branch, the first branch (a name after an honorific), the second branch (a role
  after \<^verbatim>\<open>The\<close>), and the whole pattern.
\<close>

definition HONORIFIC :: regex where
  "HONORIFIC =
     alts [seq [chr (CHR ''M''), alts [lit ''r'', lit ''rs'', lit ''s''], chr (CHR ''.'')],
           lit ''Miss'', lit ''Chairman'', lit ''Chairwoman'', lit ''HON.'', lit ''Dr.'']"

definition NAMED_SPEAKER :: regex where
  "NAMED_SPEAKER =
     seq [HONORIFIC,
          ws, opt (seq [lit ''Counsel'', ws]),
          star (seq [AZ, chr (CHR ''.''), ws]),
          AZ, Rep az 0 (Some 3), plus letter_apos,
          star (seq [ws, AZ, chr (CHR ''.'')]),
          star (seq [chr (CHR ''-''), plus letter_apos]),
          star (seq [ws, AZ, Rep az 0 (Some 3), plus letter_apos,
                     star (seq [chr (CHR ''-''), plus letter_apos])]),
          opt (seq [ws, lit ''of'', ws, AZ, plus letter,
                    star (seq [ws, AZ, plus letter])]),
          opt (seq [ws, lit ''[continuing]'']),
          paren_aside, chr (CHR ''.'')]"

definition ROLE_SPEAKER :: regex where
  "ROLE_SPEAKER =
     seq [lit ''The'', ws,
          alts [lit ''CLERK'',
                seq [lit ''Acting'', ws, lit ''CHAIR''],
                seq [lit ''ACTING'', ws, lit ''CHAIR''],
                lit ''CHAIR'',
                seq [lit ''CHAIRMAN'', opt (seq [ws, lit ''pro'', ws, lit ''tempore''])],
                seq [lit ''PRESIDING'', ws, lit ''OFFICER''],
                seq [lit ''SPEAKER'', opt (seq [ws, lit ''pro'', ws, lit ''tempore''])],
                seq [lit ''VICE'', ws, lit ''PRESIDENT''],
                seq [lit ''PRESIDENT'', ws, lit ''pro'', ws, lit ''tempore''],
                seq [lit ''ACTING'', ws, lit ''PRESIDENT'', ws, lit ''pro'', ws, lit ''tempore''],
                seq [lit ''CHIEF'', ws, lit ''JUSTICE'']],
          paren_aside, chr (CHR ''.'')]"

definition SPEAKER_REGEX :: regex where
  "SPEAKER_REGEX = seq [Bol, Rep ws 1 (Some 2), Alt NAMED_SPEAKER ROLE_SPEAKER]"

text \<open>\<^verbatim>\<open>UNDERLINE_REGEX\<close>, \<^verbatim>\<open>DOC_HEADER_REGEX\<close> and \<^verbatim>\<open>EQUALS_REGEX\<close>, compiled with
  \<^verbatim>\<open>re.MULTILINE\<close>, and \<^verbatim>\<open>DATE_END_REGEX\<close>, compiled without it.\<close>

definition UNDERLINE_REGEX :: regex where
  "UNDERLINE_REGEX =
     Alt (seq [Bol, star (cls '' _-''), Rep (chr (CHR ''_'')) 3 None, star (cls '' _-''), Eol])
         (seq [Bol, star (cls '' _-''), Rep (chr (CHR ''-'')) 3 None, star (cls '' _-''), Eol])"

definition DOC_HEADER_REGEX :: regex where
  "DOC_HEADER_REGEX =
     seq [Bol, lit ''[Congressional Record Volume'', star any_but_lf, chr (CHR '']''), Eol]"

definition DATE_END_REGEX :: regex where
  "DATE_END_REGEX =
     seq [Rep digit 1 (Some 2), lit '', '', Rep digit 4 (Some 4), opt (chr (CHR ''.'')), EndS]"

definition EQUALS_REGEX :: regex where
  "EQUALS_REGEX =
     seq [Bol, star (cls [CHR '' '', CHR 0x09]), Rep (chr (CHR ''='')) 5 None, star any_but_lf, Eol]"

text \<open>\<^verbatim>\<open>EXTRAS_PATTERNS\<close>; the sixth is compiled with \<^verbatim>\<open>re.IGNORECASE | re.DOTALL\<close>, the seventh
  with \<^verbatim>\<open>re.IGNORECASE\<close>, which changes nothing for a pattern without letters.\<close>

definition PERMISSION_REGEX :: regex where
  "PERMISSION_REGEX =
     seq [chr (CHR ''(''), star (ncls '')''), lit ''asked and was given permission'',
          star (ncls '')''), chr (CHR '')''), star ws]"

definition RULE_REGEX :: regex where
  "RULE_REGEX = Rep (cls ''-_'') 3 None"

definition TIME_REGEX :: regex where
  "TIME_REGEX = seq [lit ''{time}'', star ws, Rep digit 2 (Some 4)]"

definition ROLL_REGEX :: regex where
  "ROLL_REGEX = seq [lit ''[Roll'', star (ncls [CHR '']'', CR, LF]), chr (CHR '']'')]"

definition PAGE_REGEX :: regex where
  "PAGE_REGEX =
     seq [lit ''[[Page '', Rep (Sym (\<lambda>c. is_alpha_ascii c \<or> is_digit c)) 1 (Some 10), lit '']]'']"

definition TITLE_TAG_REGEX :: regex where
  "TITLE_TAG_REGEX = seq [lit_ci ''<title>'', RepLazy (Sym (\<lambda>c. True)) 0 None, lit_ci ''</title>'']"

definition TAG_REGEX :: regex where
  "TAG_REGEX = seq [chr (CHR ''<''), opt (chr (CHR ''/'')), plus (ncls ''>''), chr (CHR ''>'')]"

definition EXTRAS_PATTERNS :: "regex list" where
  "EXTRAS_PATTERNS =
     [PERMISSION_REGEX, RULE_REGEX, TIME_REGEX, ROLL_REGEX, PAGE_REGEX, TITLE_TAG_REGEX, TAG_REGEX]"

text \<open>\<^verbatim>\<open>_clean_extraneous(text)\<close>: one \<^verbatim>\<open>pat.sub('', text)\<close> for each pattern, in list order.\<close>

definition clean_extraneous :: "string \<Rightarrow> string" where
  "clean_extraneous t = foldl (\<lambda>t pat. re_sub_empty pat t) t EXTRAS_PATTERNS"

subsection \<open>The NOTE blocks\<close>

text \<open>
  \<^verbatim>\<open>_strip_note_blocks(text)\<close>. \<^verbatim>\<open>EQUALS_REGEX.match(ln)\<close> is a match that starts at offset 0 of
  the line. The first argument of the loop is the flag \<^verbatim>\<open>skip\<close>.
\<close>

definition is_marker :: "string \<Rightarrow> bool" where
  "is_marker ln = (rm EQUALS_REGEX ln 0 \<noteq> [])"

fun strip_lines :: "bool \<Rightarrow> string list \<Rightarrow> string list" where
  "strip_lines skip [] = []"
| "strip_lines skip (ln # lns) =
     (if is_marker ln then ln # strip_lines (\<not> skip) lns
      else if skip then strip_lines skip lns
      else ln # strip_lines skip lns)"

definition strip_note_blocks :: "string \<Rightarrow> string" where
  "strip_note_blocks text = concat (strip_lines False (splitlines_keepends text))"

subsection \<open>The two line-based families of end markers\<close>

text \<open>The indentation loop of both functions; a tab counts \<open>w\<close> columns.\<close>

fun indent_of :: "nat \<Rightarrow> string \<Rightarrow> nat" where
  "indent_of w [] = 0"
| "indent_of w (ch # cs) =
     (if ch = CHR '' '' then 1 + indent_of w cs
      else if ch = CHR 0x09 then w + indent_of w cs
      else 0)"

text \<open>The pattern \<^verbatim>\<open>\b\w[\w'-]*\b\<close> of the word count.\<close>

definition WORD_REGEX :: regex where
  "WORD_REGEX = seq [WordB, Sym is_word,
      star (Sym (\<lambda>c. is_word c \<or> c = CHR 0x27 \<or> c = CHR ''-'')), WordB]"

text \<open>The third test of \<^verbatim>\<open>_find_deeply_indented_titles\<close>: there are words, and at least half
  of them start with an upper-case letter. Every word found has a first character.\<close>

definition title_like :: "string \<Rightarrow> bool" where
  "title_like ln =
     (let stripped = strip_chars [CR, LF] ln;
          words = findall WORD_REGEX stripped
      in words \<noteq> [] \<and>
         length (filter (\<lambda>w. is_upper_char (hd w)) words) * 2 \<ge> length words)"

text \<open>
  \<^verbatim>\<open>_find_deeply_indented_titles(text, tab_width)\<close>: the loop over the lines from the second
  one on, with the line before (\<open>prev\<close>) and the offset of the line (\<open>pos\<close>).
\<close>

fun deep_scan :: "nat \<Rightarrow> string \<Rightarrow> string list \<Rightarrow> nat \<Rightarrow> (nat \<times> nat) list" where
  "deep_scan tab_width prev [] pos = []"
| "deep_scan tab_width prev (ln # lns) pos =
     (if strip prev \<noteq> [] then []
      else if indent_of tab_width ln \<le> tab_width then []
      else if title_like ln then [(pos, pos)] else [])
     @ deep_scan tab_width ln lns (pos + length ln)"

definition find_deeply_indented_titles :: "string \<Rightarrow> nat \<Rightarrow> (nat \<times> nat) list" where
  "find_deeply_indented_titles text tab_width =
     (case splitlines_keepends text of
        [] \<Rightarrow> []
      | l0 # lns \<Rightarrow> deep_scan tab_width l0 lns (length l0))"

text \<open>\<^verbatim>\<open>_find_right_justified_dates(text, indent_threshold)\<close>; \<^verbatim>\<open>DATE_END_REGEX.search\<close> finds
  a match exactly when \<^verbatim>\<open>finditer\<close> has a first one.\<close>

fun date_scan :: "nat \<Rightarrow> string list \<Rightarrow> nat \<Rightarrow> (nat \<times> nat) list" where
  "date_scan indent_threshold [] pos = []"
| "date_scan indent_threshold (ln # lns) pos =
     (if indent_of indent_threshold ln < indent_threshold then []
      else if finditer DATE_END_REGEX (strip ln) \<noteq> [] then [(pos, pos)] else [])
     @ date_scan indent_threshold lns (pos + length ln)"

definition find_right_justified_dates :: "string \<Rightarrow> nat \<Rightarrow> (nat \<times> nat) list" where
  "find_right_justified_dates text indent_threshold =
     date_scan indent_threshold (splitlines_keepends text) 0"

subsection \<open>Events and turns\<close>

text \<open>
  An event is the triple \<^verbatim>\<open>(etype, start, end)\<close>; the match object the source keeps as a
  fourth component is read only for its \<^verbatim>\<open>start()\<close> and \<^verbatim>\<open>end()\<close>, which are the second and
  third. \<open>scan_events\<close> is the list \<^verbatim>\<open>events\<close> before the sort, \<open>sorted_events\<close> the list after
  \<^verbatim>\<open>events.sort(key=lambda e: e[1])\<close>, a stable sort.
\<close>

datatype etype = Speaker | End

type_synonym event = "etype \<times> nat \<times> nat"

definition ev_start :: "event \<Rightarrow> nat" where
  "ev_start ev = fst (snd ev)"

definition replace_nbsp :: "string \<Rightarrow> string" where
  "replace_nbsp text = map (\<lambda>c. if c = CHR 0xA0 then CHR '' '' else c) text"

definition scan_events :: "string \<Rightarrow> event list" where
  "scan_events text =
     map (\<lambda>(s, e). (Speaker, s, e)) (finditer SPEAKER_REGEX text)
     @ map (\<lambda>(s, e). (End, s, e)) (finditer UNDERLINE_REGEX text)
     @ map (\<lambda>(s, e). (End, s, e)) (finditer DOC_HEADER_REGEX text)
     @ map (\<lambda>(s, e). (End, s, e)) (find_deeply_indented_titles text 2)
     @ map (\<lambda>(s, e). (End, s, e)) (find_right_justified_dates text 15)
     @ map (\<lambda>(s, e). (End, s, e)) (finditer EQUALS_REGEX text)"

definition sorted_events :: "string \<Rightarrow> event list" where
  "sorted_events text = sort_key ev_start (scan_events text)"

text \<open>
  A turn as the generator yields it, the pair of \<open>speaker\<close> and \<open>speech\<close>, together with the
  bounds of the slice of the text the speech is cleaned from.
\<close>

record turn =
  speaker :: string
  span_start :: nat
  span_end :: nat
  speech :: string

definition close_turn :: "string \<Rightarrow> string \<Rightarrow> nat \<Rightarrow> nat \<Rightarrow> turn" where
  "close_turn text current_speaker speech_start boundary =
     \<lparr> speaker = current_speaker, span_start = speech_start, span_end = boundary,
       speech = strip (clean_extraneous (strip (slice text speech_start boundary))) \<rparr>"

text \<open>\<^verbatim>\<open>text[m.start():m.end()].strip()[:-1]\<close>.\<close>

definition speaker_label :: "string \<Rightarrow> nat \<Rightarrow> nat \<Rightarrow> string" where
  "speaker_label text s e = butlast (strip (slice text s e))"

text \<open>
  The loop over the sorted events and the final speech. The second argument is the pair
  of \<^verbatim>\<open>current_speaker\<close> and \<^verbatim>\<open>speech_start\<close>, \<open>None\<close> when both are \<^verbatim>\<open>None\<close>.
\<close>

fun assemble :: "string \<Rightarrow> (string \<times> nat) option \<Rightarrow> event list \<Rightarrow> turn list" where
  "assemble text cur [] =
     (case cur of
        None \<Rightarrow> []
      | Some (current_speaker, speech_start) \<Rightarrow>
          [close_turn text current_speaker speech_start (length text)])"
| "assemble text cur ((Speaker, s, e) # evs) =
     (case cur of
        None \<Rightarrow> []
      | Some (current_speaker, speech_start) \<Rightarrow> [close_turn text current_speaker speech_start s])
     @ assemble text (Some (speaker_label text s e, e)) evs"
| "assemble text cur ((End, s, e) # evs) =
     (case cur of
        None \<Rightarrow> assemble text None evs
      | Some (current_speaker, speech_start) \<Rightarrow>
          close_turn text current_speaker speech_start s # assemble text None evs)"

definition scrape_turns :: "string \<Rightarrow> turn list" where
  "scrape_turns raw =
     (let text = replace_nbsp (strip_note_blocks raw)
      in assemble text None (sorted_events text))"

definition scrape :: "string \<Rightarrow> (string \<times> string) list" where
  "scrape raw = map (\<lambda>t. (speaker t, speech t)) (scrape_turns raw)"

text \<open>The transcript of scenario A.\<close>

definition scenario_A :: string where
  "scenario_A = ''  Mr. SMITH. This is a test.'' @ [LF] @ ''  Mr. JONES. A reply.'' @ [LF]"

text \<open>
  Notions for the properties of the scanner: a list of spans in which each span ends before
  the next one starts and none starts before \<open>lo\<close>; the spans of the speaker events of an
  event list; "turn \<open>b\<close> starts neither before turn \<open>a\<close> ends nor before it starts"; and
  three transcripts used as examples.
\<close>

definition chained :: "nat \<Rightarrow> (nat \<times> nat) list \<Rightarrow> bool" where
  "chained lo ms = (sorted_wrt (\<lambda>a b. snd a \<le> fst b) ms
     \<and> (\<forall>m\<in>set ms. lo \<le> fst m \<and> fst m \<le> snd m))"

definition is_speaker :: "event \<Rightarrow> bool" where
  "is_speaker ev = (fst ev = Speaker)"

definition speaker_spans :: "event list \<Rightarrow> (nat \<times> nat) list" where
  "speaker_spans evs = map snd (filter is_speaker evs)"

definition follows :: "turn \<Rightarrow> turn \<Rightarrow> bool" where
  "follows a b = (span_end a \<le> span_start b \<and> span_start a \<le> span_start b)"

definition gap_example :: string where
  "gap_example = ''  Mr. SMITH. Hello.'' @ [LF] @ ''_____'' @ [LF] @ ''stray text'' @ [LF]
     @ ''  Mr. JONES. Reply.'' @ [LF]"

definition note_example :: string where
  "note_example = ''  Mr. SMITH. Hello.'' @ [LF] @ ''====='' @ [LF] @ ''  Mr. JONES. Lost.'' @ [LF]"

definition note_example' :: string where
  "note_example' = ''  Mr. SMITH. Hello.'' @ [LF] @ ''====='' @ [LF] @ ''  Mr. BROWN. Also lost.''"

definition note_example_kept :: string where
  "note_example_kept = ''  Mr. SMITH. Hello.'' @ [LF] @ ''====='' @ [LF]"

text \<open>The honorifics the first branch of \<^verbatim>\<open>SPEAKER_REGEX\<close> can start with, and two transcripts
  used as examples.\<close>

definition HONORIFIC_TOKENS :: "string list" where
  "HONORIFIC_TOKENS = [''Mr.'', ''Mrs.'', ''Ms.'', ''Miss'', ''Chairman'', ''Chairwoman'',
     ''HON.'', ''Dr.'']"

definition initial_example :: string where
  "initial_example = ''  Mr. SMITH A.. Hello'' @ [LF]"

definition tab_example :: string where
  "tab_example = [LF, CHR 0x09] @ ''Mr. SMITH. Hi''"

text \<open>Notions for the properties of the speaker events: a character with every whitespace
  character read as a space, the role phrases of the second branch of \<^verbatim>\<open>SPEAKER_REGEX\<close>
  written with spaces, "every match of \<open>r\<close> lies within the text and, with its whitespace
  read as spaces, is one of the strings of \<open>A\<close>", and a transcript with a role speaker.\<close>

definition space_of :: "char \<Rightarrow> char" where
  "space_of c = (if is_space c then CHR '' '' else c)"

definition ROLE_TOKENS :: "string list" where
  "ROLE_TOKENS = [''The CLERK'', ''The Acting CHAIR'', ''The ACTING CHAIR'', ''The CHAIR'',
     ''The CHAIRMAN'', ''The CHAIRMAN pro tempore'', ''The PRESIDING OFFICER'',
     ''The SPEAKER'', ''The SPEAKER pro tempore'', ''The VICE PRESIDENT'',
     ''The PRESIDENT pro tempore'', ''The ACTING PRESIDENT pro tempore'', ''The CHIEF JUSTICE'']"

definition spells :: "regex \<Rightarrow> string set \<Rightarrow> bool" where
  "spells r A = (\<forall>t i j. i \<le> length t \<longrightarrow> j \<in> set (rm r t i) \<longrightarrow>
      i \<le> j \<and> j \<le> length t \<and> map space_of (slice t i j) \<in> A)"

definition role_example :: string where
  "role_example = ''  The SPEAKER pro tempore. Order.'' @ [LF]"

text \<open>
  Notions for the properties of the artifact stripper: \<open>tagp t p\<close> says that at offset \<open>p\<close>
  there is a \<open><\<close>, the next character is not \<open>>\<close>, and a \<open>>\<close> comes later; \<open>residue r u j\<close> is
  what one substitution pass of \<open>r\<close> leaves of the text \<open>u\<close> from offset \<open>j\<close> on.
\<close>

definition tagp :: "string \<Rightarrow> nat \<Rightarrow> bool" where
  "tagp t p = (Suc p < length t \<and> t ! p = CHR ''<'' \<and> t ! Suc p \<noteq> CHR ''>''
      \<and> (\<exists>k. p < k \<and> k < length t \<and> t ! k = CHR ''>''))"

definition residue :: "regex \<Rightarrow> string \<Rightarrow> nat \<Rightarrow> string" where
  "residue r u j = remove_matches (finditer_from r u j) u j"

section \<open>Header removal and title detection (parse_CRECB_data/3-add_debate_titles.py)\<close>

text \<open>\<^verbatim>\<open>str.split()\<close>: the maximal runs of characters that are not whitespace. The first
  argument is the run read so far.\<close>

fun split_words :: "string \<Rightarrow> string \<Rightarrow> string list" where
  "split_words cur [] = (if cur = [] then [] else [cur])"
| "split_words cur (c # cs) =
     (if is_space c then (if cur = [] then [] else [cur]) @ split_words [] cs
      else split_words (cur @ [c]) cs)"

definition split_ws :: "string \<Rightarrow> string list" where
  "split_ws s = split_words [] s"

text \<open>\<^verbatim>\<open>p in s\<close> for two strings.\<close>

definition contains :: "string \<Rightarrow> string \<Rightarrow> bool" where
  "contains s p = list_ex (\<lambda>i. startswith (drop i s) p) [0 ..< Suc (length s)]"

subsection \<open>The similarity ratio of \<^verbatim>\<open>difflib\<close>\<close>

text \<open>
  \<^verbatim>\<open>fuzzy_match(a, b)\<close> is \<^verbatim>\<open>SequenceMatcher(None, a, b).ratio()\<close>, with no junk test; the second
  string is always one of three phrases of at most 24 characters, so the library's
  treatment of popular characters, which starts at 200 characters, never applies.

  \<^verbatim>\<open>find_longest_match(alo, ahi, blo, bhi)\<close> walks through \<^verbatim>\<open>a[alo:ahi]\<close>; for the offset \<open>i\<close> it
  holds in \<^verbatim>\<open>j2len\<close>, for every offset \<open>j\<close> of \<open>b\<close>, the length of the longest common block that
  ends at \<open>a[i - 1]\<close> and \<open>b[j]\<close>, and builds the next row from it, visiting the offsets \<open>j\<close> of
  \<^verbatim>\<open>b[blo:bhi]\<close> that hold the character \<open>a[i]\<close> in ascending order. A block replaces the best
  one so far only when it is longer. A row is a list of the length of \<open>b\<close>, an absent key of
  the dictionary being the entry 0. The loops of the library that afterwards extend the
  block on both sides add nothing here: without junk the block found is already maximal.
\<close>

type_synonym match = "nat \<times> nat \<times> nat"

definition lm_cell :: "nat list \<Rightarrow> nat \<Rightarrow> nat \<Rightarrow> nat list \<times> match \<Rightarrow> nat list \<times> match" where
  "lm_cell j2len i j = (\<lambda>(newj2len, (besti, bestj, bestsize)).
     let k = (if j = 0 then 0 else j2len ! (j - 1)) + 1
     in (newj2len[j := k],
         if k > bestsize then (i + 1 - k, j + 1 - k, k) else (besti, bestj, bestsize)))"

definition lm_row :: "string \<Rightarrow> string \<Rightarrow> nat \<Rightarrow> nat \<Rightarrow> nat \<Rightarrow> nat list \<times> match \<Rightarrow> nat list \<times> match" where
  "lm_row a b blo bhi i = (\<lambda>(j2len, best).
     fold (lm_cell j2len i) (filter (\<lambda>j. b ! j = a ! i) [blo ..< bhi])
       (replicate (length b) 0, best))"

definition find_longest_match :: "string \<Rightarrow> string \<Rightarrow> nat \<Rightarrow> nat \<Rightarrow> nat \<Rightarrow> nat \<Rightarrow> match" where
  "find_longest_match a b alo ahi blo bhi =
     snd (fold (lm_row a b blo bhi) [alo ..< ahi] (replicate (length b) 0, (alo, blo, 0)))"

text \<open>
  The sum of the sizes of the blocks of \<^verbatim>\<open>get_matching_blocks()\<close>: the longest block of the
  two ranges, then the blocks of the ranges to its left and of the ranges to its right.
  The library keeps the ranges still to be searched in a queue; the sum does not depend on
  the order in which they are taken. Termination is proved below, from the bounds of the
  block that \<open>find_longest_match\<close> returns.
\<close>

function matching_total :: "string \<Rightarrow> string \<Rightarrow> nat \<Rightarrow> nat \<Rightarrow> nat \<Rightarrow> nat \<Rightarrow> nat" where
  "matching_total a b alo ahi blo bhi =
     (case find_longest_match a b alo ahi blo bhi of
        (i, j, k) \<Rightarrow>
          if k = 0 then 0
          else k + (if alo < i \<and> blo < j then matching_total a b alo i blo j else 0)
                 + (if i + k < ahi \<and> j + k < bhi then matching_total a b (i + k) ahi (j + k) bhi else 0))"
  by pat_completeness auto

text \<open>
  \<^verbatim>\<open>fuzzy_match(a, b) >= pct / 100\<close>. The ratio is \<^verbatim>\<open>2.0 * matches / length\<close>, and 1.0 when both
  strings are empty. The program compares this floating-point quotient with the constants
  0.90 and 0.83; the quotient is the correctly rounded value of a fraction whose
  denominator is the number of characters of the two strings, so for strings of fewer than
  \<open>10\<^sup>1\<^sup>5\<close> characters the comparison has the result of the exact one, which is written here
  over the natural numbers.
\<close>

definition ratio_at_least :: "string \<Rightarrow> string \<Rightarrow> nat \<Rightarrow> bool" where
  "ratio_at_least a b pct =
     (let total = length a + length b
      in if total = 0 then pct \<le> 100
         else pct * total \<le> 200 * matching_total a b 0 (length a) 0 (length b))"

subsection \<open>\<^verbatim>\<open>remove_headers_with_fuzz\<close>\<close>

text \<open>
  \<^verbatim>\<open>normalize_ocr(line)\<close>. Of the characters the function removes or replaces, only the soft
  hyphen (code point 173) lies in the range 0..255; the zero-width characters, the
  non-breaking hyphen and the two dashes lie above it.
\<close>

definition normalize_ocr :: "string \<Rightarrow> string" where
  "normalize_ocr line = filter (\<lambda>c. c \<noteq> CHR 0xAD) line"

text \<open>
  \<^verbatim>\<open>re.fullmatch(r"\d{4}", stripped)\<close> followed by \<^verbatim>\<open>1873 <= int(stripped) <= 1994\<close>. Below code
  point 256 the class \<^verbatim>\<open>\d\<close> holds the ten digits only.
\<close>

definition digit_value :: "char \<Rightarrow> nat" where
  "digit_value c = (case map_of (zip ascii_digits [0 ..< 10]) c of Some d \<Rightarrow> d | None \<Rightarrow> 0)"

definition int_of_digits :: "string \<Rightarrow> nat" where
  "int_of_digits s = foldl (\<lambda>n c. 10 * n + digit_value c) 0 s"

definition is_year_line :: "string \<Rightarrow> bool" where
  "is_year_line stripped =
     (length stripped = 4 \<and> list_all is_digit stripped
      \<and> 1873 \<le> int_of_digits stripped \<and> int_of_digits stripped \<le> 1994)"

text \<open>The test on the words \<^verbatim>\<open>re.findall(r"[A-Za-z]+", up)\<close>: there are words, and all of them
  are keywords of the authentication notice.\<close>

definition HEADER_KEYWORDS :: "string list" where
  "HEADER_KEYWORDS = [''AUTHENTICATED'', ''AUTHENTICATE'', ''AUTHENTICATION'', ''AUTHENTIC'',
     ''INFORMATION'', ''GPO'']"

definition keyword_line :: "string \<Rightarrow> bool" where
  "keyword_line up =
     (let words = findall (plus letter) up
      in words \<noteq> [] \<and> list_all (\<lambda>w. w \<in> set HEADER_KEYWORDS) words)"

text \<open>
  The test made on the line after a chamber header, when \<^verbatim>\<open>skip_next\<close> is set: the first word
  \<open>w\<close> of the line, if there is one, is in upper case and has at least 3 letters, or has at
  least 6 letters of which at most one is in lower case. The word consists of letters
  \<open>A\<close>..\<open>Z\<close> and \<open>a\<close>..\<open>z\<close>, so \<^verbatim>\<open>w.isupper()\<close> says that all of them are upper-case letters.
\<close>

definition header_continuation :: "string \<Rightarrow> bool" where
  "header_continuation line =
     (case findall (plus letter) line of
        [] \<Rightarrow> False
      | w # _ \<Rightarrow> (list_all is_AZ w \<and> 3 \<le> length w)
                 \<or> (6 \<le> length w \<and> length (filter is_az w) \<le> 1))"

text \<open>
  The loop of \<^verbatim>\<open>remove_headers_with_fuzz\<close> over the lines, with the flag \<^verbatim>\<open>skip_next\<close> as first
  argument. Every \<^verbatim>\<open>continue\<close> drops the line. The flag is set by a chamber header, left as
  it is by the other dropped lines, and cleared by the first line that reaches the last
  test.
\<close>

fun rh_loop :: "bool \<Rightarrow> string list \<Rightarrow> string list" where
  "rh_loop skip_next [] = []"
| "rh_loop skip_next (raw # lines) =
     (let line = normalize_ocr raw;
          up = upper (strip line);
          stripped = strip line
      in if is_year_line stripped then rh_loop skip_next lines
         else if contains up ''CONGRESSIONAL RECORD'' then rh_loop skip_next lines
         else if ratio_at_least up ''HOUSE OF REPRESENTATIVES'' 90 then rh_loop True lines
         else if ratio_at_least up ''SENATE'' 83 then rh_loop True lines
         else if ratio_at_least up ''CONGRESSIONAL RECORD'' 90 then rh_loop skip_next lines
         else if keyword_line up then rh_loop skip_next lines
         else if skip_next \<and> header_continuation line then rh_loop False lines
         else line # rh_loop False lines)"

definition remove_headers_with_fuzz :: "string \<Rightarrow> string" where
  "remove_headers_with_fuzz text = join_lf (rh_loop False (splitlines text))"

subsection \<open>\<^verbatim>\<open>find_titles\<close>\<close>

text \<open>
  \<^verbatim>\<open>normalize_token(token)\<close>: the characters stripped are the punctuation marks of the call;
  its two dashes lie above code point 255. The last three are the double quote, the
  apostrophe and the grave accent.
\<close>

definition normalize_token :: "string \<Rightarrow> string" where
  "normalize_token token =
     strip_chars ('',.;:!?-()[]{}<>'' @ [CHR 0x22, CHR 0x27, CHR 0x60]) token"

definition is_allcaps_alpha_word :: "string \<Rightarrow> bool" where
  "is_allcaps_alpha_word token =
     (let cleaned = normalize_token token in
      if length (filter is_alpha_ascii cleaned) < 2 then False
      else if list_ex is_az cleaned then False
      else list_ex is_AZ cleaned)"

text \<open>
  \<^verbatim>\<open>percent_uppercase_alpha(line, skip_words)\<close> collects the letters of the words that are not
  skipped, and the upper-case ones among them; \<open>count_letters\<close> gives the two counts, and the
  test \<^verbatim>\<open>pct >= 0.60\<close> of the callers is written over them (the percentage is 0.0 when there
  is no letter). The skip list of \<^verbatim>\<open>find_titles\<close> is the word \<^verbatim>\<open>report\<close>.
\<close>

fun count_letters :: "string set \<Rightarrow> string list \<Rightarrow> nat \<times> nat" where
  "count_letters skip_words [] = (0, 0)"
| "count_letters skip_words (token # tokens) =
     (let base = filter is_alpha_ascii token;
          (upper_n, letters_n) = count_letters skip_words tokens
      in if lower base \<in> skip_words then (upper_n, letters_n)
         else (length (filter is_AZ base) + upper_n, length base + letters_n))"

definition pct_at_least_60 :: "string \<Rightarrow> bool" where
  "pct_at_least_60 line =
     (case count_letters {''report''} (split_ws line) of
        (upper_n, letters_n) \<Rightarrow> letters_n \<noteq> 0 \<and> 3 * letters_n \<le> 5 * upper_n)"

definition exclude_line :: "string \<Rightarrow> bool" where
  "exclude_line line =
     (let l = lower line;
          cleaned = filter is_az l;
          words = findall (plus letter) l
      in if contains cleaned ''congressionalrecord'' then True
         else if cleaned \<in> {''usgovernment'', ''usgoverment''} then True
         else words \<noteq> [] \<and>
              list_all (\<lambda>w. w \<in> {''gpo'', ''authenticated'', ''authentication'', ''authentic'',
                                  ''information''}) words)"

text \<open>
  The state of the loop of \<^verbatim>\<open>find_titles\<close>: the titles found, the lines of the open block,
  each with its start and end offset, and the start of the block (read only while the
  block is not empty).
\<close>

type_synonym block_line = "string \<times> nat \<times> nat"

record ft_state =
  ft_titles :: "title_block list"
  ft_block :: "block_line list"
  ft_block_start :: nat

definition block_text :: "block_line list \<Rightarrow> string" where
  "block_text b = concat (map fst b)"

definition courtesy_block :: "block_line list \<Rightarrow> bool" where
  "courtesy_block b =
     (let t = lstrip (block_text b)
      in startswith t ''Mr.'' \<or> startswith t ''Ms.'' \<or> startswith t ''Mrs.'')"

text \<open>Closing the block: it becomes a title unless it is empty or starts with a courtesy
  title.\<close>

definition close_block :: "ft_state \<Rightarrow> ft_state" where
  "close_block st =
     (if ft_block st \<noteq> [] \<and> \<not> courtesy_block (ft_block st)
      then st\<lparr> ft_titles := ft_titles st @ [(block_text (ft_block st), ft_block_start st,
                                         snd (snd (last (ft_block st))))],
               ft_block := [] \<rparr>
      else st\<lparr> ft_block := [] \<rparr>)"

definition alpha_chars :: "string \<Rightarrow> nat" where
  "alpha_chars s = length (filter is_alpha_ascii s)"

text \<open>The look-ahead at a blank line: \<open>rest\<close> holds the lines after it; the first line that is
  not blank, if there is one, is tested.\<close>

definition lookahead_ok :: "string list \<Rightarrow> bool" where
  "lookahead_ok rest =
     (case dropWhile (\<lambda>l. strip l = []) rest of
        [] \<Rightarrow> False
      | l # _ \<Rightarrow> 8 \<le> alpha_chars (strip l) \<and> pct_at_least_60 (strip l))"

definition alpha_words :: "string \<Rightarrow> nat" where
  "alpha_words s = length (filter (list_ex is_alpha_ascii) (split_ws s))"

definition cap_words :: "string \<Rightarrow> nat" where
  "cap_words s = length (filter is_allcaps_alpha_word (split_ws s))"

definition is_strong :: "string \<Rightarrow> bool" where
  "is_strong stripped =
     (2 \<le> alpha_words stripped \<and> pct_at_least_60 stripped \<and> 8 \<le> alpha_chars stripped)"

definition is_short_final :: "string \<Rightarrow> bool" where
  "is_short_final stripped = (alpha_words stripped = 1 \<and> 1 \<le> cap_words stripped)"

text \<open>One round of the loop, for the line at \<open>offset\<close> and the lines \<open>rest\<close> after it.\<close>

definition ft_step :: "ft_state \<Rightarrow> nat \<Rightarrow> string \<Rightarrow> string list \<Rightarrow> ft_state" where
  "ft_step st offset line rest =
     (let stripped = strip line;
          line_start = offset;
          line_end = offset + length line
      in if stripped = [] \<and> ft_block st \<noteq> [] then
           (if lookahead_ok rest
            then st\<lparr> ft_block := ft_block st @ [(line, line_start, line_end)] \<rparr>
            else close_block st)
         else if exclude_line line then close_block st
         else if is_strong stripped then
           st\<lparr> ft_block := ft_block st @ [(line, line_start, line_end)],
               ft_block_start := (if ft_block st = [] then line_start else ft_block_start st) \<rparr>
         else if ft_block st \<noteq> [] \<and> is_short_final stripped then
           st\<lparr> ft_block := ft_block st @ [(line, line_start, line_end)] \<rparr>
         else close_block st)"

fun ft_loop :: "ft_state \<Rightarrow> nat \<Rightarrow> string list \<Rightarrow> ft_state" where
  "ft_loop st offset [] = st"
| "ft_loop st offset (line # rest) =
     ft_loop (ft_step st offset line rest) (offset + length line) rest"

definition find_titles :: "string \<Rightarrow> title_block list" where
  "find_titles text =
     ft_titles (close_block (ft_loop \<lparr> ft_titles = [], ft_block = [], ft_block_start = 0 \<rparr> 0
                                  (splitlines_keepends text)))"

subsection \<open>\<^verbatim>\<open>worker_process\<close>\<close>

text \<open>
  The text \<^verbatim>\<open>reconstructed\<close> of the rows of a file, and the title column that
  \<^verbatim>\<open>worker_process\<close> writes: the headers are removed from the reconstructed text, the titles
  and sections are those of the cleaned text, and each row is looked up at the offset it
  has in the reconstructed text (\<^const>\<open>row_offsets\<close>).
\<close>

definition reconstruct :: "string list \<Rightarrow> string" where
  "reconstruct speeches = concat (map (\<lambda>speech. speech @ [LF, LF]) speeches)"

definition worker_titles :: "string list \<Rightarrow> string list" where
  "worker_titles speeches =
     (let cleaned_text = remove_headers_with_fuzz (reconstruct speeches);
          titles = find_titles cleaned_text
      in assign_rows cleaned_text titles speeches)"

text \<open>
  Three rows of one file: the first begins with a page header, and the first two end with
  the heading of the debate that follows; then the reconstructed text of these rows and
  the text that is left of it when the header is removed.
\<close>

definition bill_rows :: "string list" where
  "bill_rows = [''CONGRESSIONAL RECORD-SENATE'' @ [LF] @ ''THE FIRST BILL HERE'',
                ''I rise.'' @ [LF] @ ''THE SECOND BILL NOW'',
                ''I object.'']"

definition bill_text :: string where
  "bill_text = ''CONGRESSIONAL RECORD-SENATE'' @ [LF] @ ''THE FIRST BILL HERE'' @ [LF, LF]
     @ ''I rise.'' @ [LF] @ ''THE SECOND BILL NOW'' @ [LF, LF] @ ''I object.'' @ [LF, LF]"

definition bill_cleaned :: string where
  "bill_cleaned = ''THE FIRST BILL HERE'' @ [LF, LF]
     @ ''I rise.'' @ [LF] @ ''THE SECOND BILL NOW'' @ [LF, LF] @ ''I object.'' @ [LF]"







section \<open>Properties of the text primitives\<close>

lemma split_no_break:
  "\<forall>c\<in>set l. \<not> is_linebreak c \<Longrightarrow>
     split_lines False cur (l @ rest) = split_lines False (cur @ l) rest"
proof (induction l arbitrary: cur)
  case Nil
  then show ?case by simp
next
  case (Cons c l)
  have nb: "\<not> is_linebreak c" using Cons.prems by simp
  have ncr: "c \<noteq> CR" using nb by (auto simp: is_linebreak_def CR_def)
  have tl: "\<forall>c\<in>set l. \<not> is_linebreak c" using Cons.prems by simp
  show ?case
  proof (cases "l @ rest")
    case Nil
    then show ?thesis using nb by simp
  next
    case (Cons d ds)
    have "split_lines False cur ((c # l) @ rest) = split_lines False (cur @ [c]) (l @ rest)"
      using Cons nb ncr by simp
    also have "\<dots> = split_lines False ((cur @ [c]) @ l) rest"
      by (rule Cons.IH[OF tl])
    finally show ?thesis by simp
  qed
qed

lemma split_LF: "split_lines False cur (LF # rest) = cur # split_lines False [] rest"
  by (cases rest) (auto simp: is_linebreak_def LF_def CR_def)

lemma split_join:
  "\<forall>l\<in>set ks. \<forall>c\<in>set l. \<not> is_linebreak c \<Longrightarrow> split_lines False [] (join_lf ks) = chop ks"
proof (induction ks rule: join_lf.induct)
  case 1
  show ?case by (simp add: chop_def)
next
  case (2 l)
  then have "split_lines False [] (l @ []) = split_lines False ([] @ l) []"
    by (intro split_no_break) simp
  then show ?case by (simp add: chop_def)
next
  case (3 l m ls)
  have "split_lines False [] (l @ LF # join_lf (m # ls))
      = split_lines False ([] @ l) (LF # join_lf (m # ls))"
    using 3 by (intro split_no_break) simp
  also have "\<dots> = l # split_lines False [] (join_lf (m # ls))" by (simp add: split_LF)
  also have "\<dots> = l # chop (m # ls)" using 3 by simp
  finally show ?case by (simp add: chop_def)
qed

lemma split_lines_no_break:
  "l \<in> set (split_lines False cur s) \<Longrightarrow> \<forall>c\<in>set cur. \<not> is_linebreak c \<Longrightarrow> c \<in> set l
     \<Longrightarrow> \<not> is_linebreak c"
proof (induction False cur s rule: split_lines.induct)
  case (1 cur)
  then show ?case by (auto split: if_splits)
next
  case (2 cur c)
  then show ?case by (auto split: if_splits)
next
  case (3 cur c d cs)
  then show ?case by (auto split: if_splits)
qed

lemma set_chop: "set (chop ks) \<subseteq> set ks"
  by (auto simp: chop_def dest: in_set_butlastD)

lemma join_lf_snoc: "ks \<noteq> [] \<Longrightarrow> join_lf (ks @ [l]) = join_lf ks @ LF # l"
  by (induction ks rule: join_lf.induct) auto

lemma join_lf_last:
  "ks \<noteq> [] \<Longrightarrow> last ks \<noteq> [] \<Longrightarrow> join_lf ks \<noteq> [] \<and> last (join_lf ks) = last (last ks)"
  by (induction ks rule: join_lf.induct) auto

lemma join_chop:
  assumes nb: "\<forall>l\<in>set ks. \<forall>c\<in>set l. \<not> is_linebreak c"
  shows "join_lf (chop ks) =
     (if join_lf ks \<noteq> [] \<and> last (join_lf ks) = LF then butlast (join_lf ks) else join_lf ks)"
proof (cases "ks \<noteq> [] \<and> last ks = []")
  case True
  then obtain ks' where ks: "ks = ks' @ [[]]" by (metis append_butlast_last_id)
  show ?thesis
  proof (cases "ks' = []")
    case True
    then show ?thesis using ks by (simp add: chop_def)
  next
    case False
    then show ?thesis using ks by (simp add: chop_def join_lf_snoc)
  qed
next
  case False
  show ?thesis
  proof (cases "ks = []")
    case True
    then show ?thesis by (simp add: chop_def)
  next
    case ne: False
    with False have l: "last ks \<noteq> []" by simp
    have "last (last ks) \<in> set (last ks)" using l by simp
    moreover have "last ks \<in> set ks" using ne by simp
    ultimately have "\<not> is_linebreak (last (last ks))" using nb by blast
    then have "last (last ks) \<noteq> LF" by (auto simp: is_linebreak_def LF_def)
    then show ?thesis using join_lf_last[OF ne l] l by (simp add: chop_def)
  qed
qed

section \<open>Properties of the boilerplate filter\<close>

subsection \<open>The distance test and the edit distance\<close>

lemma diff_count_Cons [simp]:
  "diff_count (x # xs) (y # ys) = (if x \<noteq> y then 1 else 0) + diff_count xs ys"
  by (simp add: diff_count_def)

lemma diff_count_zero: "length a = length b \<Longrightarrow> diff_count a b = 0 \<longleftrightarrow> a = b"
proof (induction a arbitrary: b)
  case Nil
  then show ?case by (simp add: diff_count_def)
next
  case (Cons x xs)
  then obtain y ys where b: "b = y # ys" by (cases b) auto
  with Cons show ?case by auto
qed

lemma del1_Nil [simp]: "\<not> del1 [] a"
  by (simp add: del1_def)

lemma del1_Cons_Nil: "del1 (y # ys) [] \<longleftrightarrow> ys = []"
  by (auto simp: del1_def)

lemma del1_Cons:
  "del1 (y # ys) (x # xs) \<longleftrightarrow> ys = x # xs \<or> (x = y \<and> del1 ys xs)"
proof
  assume "del1 (y # ys) (x # xs)"
  then obtain i where i: "i < Suc (length ys)"
      "take i (y # ys) @ drop (Suc i) (y # ys) = x # xs"
    by (auto simp: del1_def)
  show "ys = x # xs \<or> (x = y \<and> del1 ys xs)"
  proof (cases i)
    case 0
    with i show ?thesis by simp
  next
    case (Suc j)
    with i have "x = y" "take j ys @ drop (Suc j) ys = xs" "j < length ys" by auto
    then show ?thesis by (auto simp: del1_def)
  qed
next
  assume "ys = x # xs \<or> (x = y \<and> del1 ys xs)"
  then show "del1 (y # ys) (x # xs)"
  proof
    assume "ys = x # xs"
    then have "take 0 (y # ys) @ drop (Suc 0) (y # ys) = x # xs" by simp
    then show ?thesis unfolding del1_def by (metis length_Cons zero_less_Suc)
  next
    assume a: "x = y \<and> del1 ys xs"
    then obtain j where "j < length ys" "take j ys @ drop (Suc j) ys = xs"
      by (auto simp: del1_def)
    then have "Suc j < length (y # ys)"
        "take (Suc j) (y # ys) @ drop (Suc (Suc j)) (y # ys) = x # xs"
      using a by auto
    then show ?thesis unfolding del1_def by blast
  qed
qed

lemma del1_length: "del1 b a \<Longrightarrow> length b = Suc (length a)"
  by (auto simp: del1_def)

lemma levenshtein_leq1_alt:
  "levenshtein_leq1 a b \<longleftrightarrow>
     a = b \<or> (length a = length b \<and> diff_count a b \<le> 1) \<or> del1 b a \<or> del1 a b"
proof -
  have ex: "\<And>(u::string) v.
      list_ex (\<lambda>i. take i u @ drop (i + 1) u = v) [0 ..< length u] = del1 u v"
    by (auto simp: list_ex_iff del1_def)
  show ?thesis
    unfolding levenshtein_leq1_def Let_def ex diff_count_def[symmetric]
    by (auto dest: del1_length simp: ex)
qed

lemma edit_distance_zero: "edit_distance a b = 0 \<longleftrightarrow> a = b"
  by (induction a b rule: edit_distance.induct) auto

lemma leq1_rec:
  "levenshtein_leq1 (x # xs) (y # ys) \<longleftrightarrow>
     xs = y # ys \<or> x # xs = ys \<or> (x = y \<and> levenshtein_leq1 xs ys) \<or> (x \<noteq> y \<and> xs = ys)"
  unfolding levenshtein_leq1_alt del1_Cons
  by (auto simp: diff_count_zero dest: del1_length)

lemma leq1_Nil1: "levenshtein_leq1 [] ys \<longleftrightarrow> length ys \<le> 1"
  unfolding levenshtein_leq1_alt by (cases ys) (auto simp: del1_Cons_Nil diff_count_def)

lemma leq1_Nil2: "levenshtein_leq1 xs [] \<longleftrightarrow> length xs \<le> 1"
  unfolding levenshtein_leq1_alt by (cases xs) (auto simp: del1_Cons_Nil diff_count_def)

lemma levenshtein_leq1_edit_distance:
  "levenshtein_leq1 a b \<longleftrightarrow> edit_distance a b \<le> 1"
proof (induction a b rule: edit_distance.induct)
  case (1 ys)
  show ?case by (simp add: leq1_Nil1)
next
  case (2 x xs)
  show ?case by (simp add: leq1_Nil2)
next
  case (3 x xs y ys)
  have a: "edit_distance xs (y # ys) + 1 \<le> 1 \<longleftrightarrow> xs = y # ys"
    using edit_distance_zero[of xs "y # ys"] by auto
  have b: "edit_distance (x # xs) ys + 1 \<le> 1 \<longleftrightarrow> x # xs = ys"
    using edit_distance_zero[of "x # xs" ys] by auto
  have c: "edit_distance xs ys + (if x = y then 0 else 1) \<le> 1 \<longleftrightarrow>
      (x = y \<and> levenshtein_leq1 xs ys) \<or> (x \<noteq> y \<and> xs = ys)"
    using 3 edit_distance_zero[of xs ys] by auto
  show ?case
    unfolding leq1_rec edit_distance.simps min_le_iff_disj a b c by blast
qed

lemma diff_count_card:
  assumes l: "length a = length b"
  shows "diff_count a b = card {i. i < length a \<and> a ! i \<noteq> b ! i}"
proof -
  have "diff_count a b
      = card {i. i < length (zip a b) \<and> (\<lambda>(c1, c2). c1 \<noteq> c2) (zip a b ! i)}"
    unfolding diff_count_def by (rule length_filter_conv_card)
  also have "{i. i < length (zip a b) \<and> (\<lambda>(c1, c2). c1 \<noteq> c2) (zip a b ! i)}
      = {i. i < length a \<and> a ! i \<noteq> b ! i}"
    using l by auto
  finally show ?thesis .
qed

lemma leq1_same_length:
  assumes l: "length a = length b"
  shows "levenshtein_leq1 a b \<longleftrightarrow> card {i. i < length a \<and> a ! i \<noteq> b ! i} \<le> 1"
proof -
  have "a = b \<Longrightarrow> diff_count a b \<le> 1" using diff_count_zero[of a b] by simp
  then show ?thesis
    unfolding levenshtein_leq1_alt diff_count_card[OF l, symmetric]
    using l by (auto dest: del1_length)
qed

lemma leq1_longer:
  "length b = Suc (length a) \<Longrightarrow>
     levenshtein_leq1 a b \<longleftrightarrow> (\<exists>i<length b. take i b @ drop (Suc i) b = a)"
  unfolding levenshtein_leq1_alt del1_def[symmetric] by (auto dest: del1_length)

lemma leq1_shorter:
  "length a = Suc (length b) \<Longrightarrow>
     levenshtein_leq1 a b \<longleftrightarrow> (\<exists>i<length a. take i a @ drop (Suc i) a = b)"
  unfolding levenshtein_leq1_alt del1_def[symmetric] by (auto dest: del1_length)

subsection \<open>The windows of a line\<close>

lemma T_LEN_val: "T_LEN = 20"
  by (simp add: T_LEN_def TARGET_def)

lemma list_ex_upt: "list_ex P [0 ..< k] = (\<exists>i<k. P i)"
  by (auto simp: list_ex_iff)

lemma window_range:
  assumes "0 < L"
  shows "(\<not> (L \<le> 0 \<or> L > n) \<and> list_ex P [0 ..< n - L + 1]) \<longleftrightarrow> (\<exists>i. i + L \<le> n \<and> P i)"
proof -
  have "\<And>i. (L \<le> n \<and> i < n - L + 1) \<longleftrightarrow> i + L \<le> n" by arith
  then show ?thesis unfolding list_ex_upt by (metis not_le assms)
qed

lemma line_contains_fuzzy_target_iff:
  "line_contains_fuzzy_target line \<longleftrightarrow>
     (\<exists>L\<in>{T_LEN - 1, T_LEN, T_LEN + 1}. \<exists>i. i + L \<le> length (upper line) \<and>
        edit_distance (window_clean (slice (upper line) i (i + L))) TARGET \<le> 1)"
proof -
  have p: "(0::nat) < T_LEN - 1" "(0::nat) < T_LEN" "(0::nat) < T_LEN + 1"
    by (simp_all add: T_LEN_val)
  show ?thesis
    unfolding line_contains_fuzzy_target_def Let_def list_ex_Nil_iff list_ex_Cons_iff
      window_range[OF p(1)] window_range[OF p(2)] window_range[OF p(3)]
      levenshtein_leq1_edit_distance
    by blast
qed

lemma flipped_line_matches: "line_contains_fuzzy_target ''CONGRESSIOVAL RECORD''"
  by code_simp

lemma flipped_line_removed:
  "clean_speech_text (''first'' @ LF # ''CONGRESSIOVAL RECORD'' @ LF # ''last'')
     = ''first'' @ LF # ''last''"
  by code_simp

lemma window_clean_explicit:
  "window_clean w = filter (\<lambda>c. c \<in> set ''ABCDEFGHIJKLMNOPQRSTUVWXYZ '') w"
  unfolding window_clean_def is_AZ_def ascii_upper_def
  by (rule filter_cong) auto

lemma removed_as_specified_leq1:
  "removed_as_specified line =
     (let up = upper line in
      list_ex (\<lambda>L.
          list_ex (\<lambda>i. levenshtein_leq1 (letters_and_spaces (slice up i (i + L))) TARGET)
            [0 ..< length up + 1 - L])
        [T_LEN - 1, T_LEN, T_LEN + 1])"
  unfolding removed_as_specified_def levenshtein_leq1_edit_distance ..

lemma accent_line_removed: "line_contains_fuzzy_target accent_line"
  by code_simp

lemma accent_line_upper: "upper accent_line = accent_line"
  by code_simp

lemma accent_line_not_specified: "\<not> removed_as_specified accent_line"
  unfolding removed_as_specified_leq1 by code_simp

lemma accent_line_clean:
  "clean_speech_text (''first'' @ LF # accent_line @ LF # ''last'') = ''first'' @ LF # ''last''"
  by code_simp

lemma punct_line_upper: "upper ''Congressional.. Record'' = ''CONGRESSIONAL.. RECORD''"
  by code_simp

lemma punct_window_clean: "window_clean ''ONGRESSIONAL.. RECORD'' = ''ONGRESSIONAL RECORD''"
  by code_simp

lemma punct_line_removed: "line_contains_fuzzy_target ''Congressional.. Record''"
  by code_simp

lemma two_flips_kept: "\<not> line_contains_fuzzy_target ''CONGRESSIOVAL RECURD''"
  by code_simp


lemma removed_as_specified_iff:
  "removed_as_specified line \<longleftrightarrow>
     (\<exists>L\<in>{T_LEN - 1, T_LEN, T_LEN + 1}. \<exists>i. i + L \<le> length (upper line) \<and>
        edit_distance (letters_and_spaces (slice (upper line) i (i + L))) TARGET \<le> 1)"
proof -
  have r: "\<And>P n L. list_ex P [0 ..< n + 1 - L] = (\<exists>i. i + L \<le> n \<and> P i)"
  proof -
    fix P :: "nat \<Rightarrow> bool" and n L :: nat
    have "\<And>i. i < n + 1 - L \<longleftrightarrow> i + L \<le> n" by arith
    then show "list_ex P [0 ..< n + 1 - L] = (\<exists>i. i + L \<le> n \<and> P i)"
      unfolding list_ex_upt by simp
  qed
  show ?thesis
    unfolding removed_as_specified_def Let_def list_ex_Nil_iff list_ex_Cons_iff r
    by blast
qed

lemma set_slice: "set (slice s a b) \<subseteq> set s"
  unfolding slice_def by (meson set_take_subset set_drop_subset subset_trans)

lemma letters_and_spaces_window_clean:
  assumes "\<forall>c\<in>set s. is_alpha c \<longrightarrow> is_AZ c"
  shows "letters_and_spaces (slice s a b) = window_clean (slice s a b)"
  unfolding letters_and_spaces_def window_clean_def
proof (rule filter_cong[OF refl])
  fix c
  assume "c \<in> set (slice s a b)"
  then have "c \<in> set s" using set_slice[of s a b] by auto
  then have "is_alpha c \<longrightarrow> is_AZ c" using assms by blast
  moreover have "is_AZ c \<longrightarrow> is_alpha c" by (simp add: is_alpha_def)
  ultimately show "(is_alpha c \<or> c = CHR '' '') = (is_AZ c \<or> c = CHR '' '')" by blast
qed

lemma specified_agrees:
  assumes "\<forall>c\<in>set (upper line). is_alpha c \<longrightarrow> is_AZ c"
  shows "removed_as_specified line \<longleftrightarrow> line_contains_fuzzy_target line"
  unfolding removed_as_specified_iff line_contains_fuzzy_target_iff
    letters_and_spaces_window_clean[OF assms] ..

text \<open>
  C7, amended. A line is removed, as a whole, exactly when some window of the upper-cased
  line of length \<open>T - 1\<close>, \<open>T\<close> or \<open>T + 1\<close> (\<open>T = 20\<close>), with every character other than the 26
  letters \<open>A\<close>..\<open>Z\<close> and the space taken out, is within Levenshtein distance 1 of the target
  phrase; on a line whose upper-cased text has no letter outside \<open>A\<close>..\<open>Z\<close> this is the
  filter as the specification words it. The distance test is true for strings of equal
  length exactly when they differ in at most one position, and for lengths differing by
  one exactly when deleting one character of the longer string gives the shorter one. The
  lower-case line \<open>Congressional.. Record\<close> is upper-cased, loses its two periods in the
  window and is removed; \<open>CONGRESSIOVAL RECORD\<close> is removed; \<open>CONGRESSIOVAL RECURD\<close>, at
  distance 2, is kept.
\<close>

theorem fuzzy_filter_removes_iff_within_distance_1:
  "(line_contains_fuzzy_target line \<longleftrightarrow>
     (\<exists>L\<in>{T_LEN - 1, T_LEN, T_LEN + 1}. \<exists>i. i + L \<le> length (upper line) \<and>
        edit_distance
          (filter (\<lambda>c. c \<in> set ''ABCDEFGHIJKLMNOPQRSTUVWXYZ '') (slice (upper line) i (i + L)))
          ''CONGRESSIONAL RECORD'' \<le> 1))
   \<and> T_LEN = 20
   \<and> window_clean w = filter (\<lambda>c. c \<in> set ''ABCDEFGHIJKLMNOPQRSTUVWXYZ '') w
   \<and> ((\<forall>c\<in>set (upper line). is_alpha c \<longrightarrow> is_AZ c) \<longrightarrow>
        (line_contains_fuzzy_target line \<longleftrightarrow> removed_as_specified line))
   \<and> clean_speech_text t =
       join_lf (filter (\<lambda>l. \<not> line_contains_fuzzy_target l) (splitlines t))
   \<and> (levenshtein_leq1 a b \<longleftrightarrow> edit_distance a b \<le> 1)
   \<and> (length a = length b \<longrightarrow>
        (levenshtein_leq1 a b \<longleftrightarrow> card {i. i < length a \<and> a ! i \<noteq> b ! i} \<le> 1))
   \<and> (length b = Suc (length a) \<longrightarrow>
        (levenshtein_leq1 a b \<longleftrightarrow> (\<exists>i<length b. take i b @ drop (Suc i) b = a)))
   \<and> (length a = Suc (length b) \<longrightarrow>
        (levenshtein_leq1 a b \<longleftrightarrow> (\<exists>i<length a. take i a @ drop (Suc i) a = b)))
   \<and> upper ''Congressional.. Record'' = ''CONGRESSIONAL.. RECORD''
   \<and> window_clean ''ONGRESSIONAL.. RECORD'' = ''ONGRESSIONAL RECORD''
   \<and> line_contains_fuzzy_target ''Congressional.. Record''
   \<and> \<not> line_contains_fuzzy_target ''CONGRESSIOVAL RECURD''
   \<and> line_contains_fuzzy_target ''CONGRESSIOVAL RECORD''
   \<and> clean_speech_text (''first'' @ LF # ''CONGRESSIOVAL RECORD'' @ LF # ''last'')
       = ''first'' @ LF # ''last''"
proof -
  have 1: "line_contains_fuzzy_target line \<longleftrightarrow>
     (\<exists>L\<in>{T_LEN - 1, T_LEN, T_LEN + 1}. \<exists>i. i + L \<le> length (upper line) \<and>
        edit_distance
          (filter (\<lambda>c. c \<in> set ''ABCDEFGHIJKLMNOPQRSTUVWXYZ '') (slice (upper line) i (i + L)))
          ''CONGRESSIONAL RECORD'' \<le> 1)"
    using line_contains_fuzzy_target_iff[of line]
    unfolding window_clean_explicit TARGET_def .
  have 2: "(\<forall>c\<in>set (upper line). is_alpha c \<longrightarrow> is_AZ c) \<longrightarrow>
        (line_contains_fuzzy_target line \<longleftrightarrow> removed_as_specified line)"
    using specified_agrees[of line] by blast
  have 3: "clean_speech_text t =
       join_lf (filter (\<lambda>l. \<not> line_contains_fuzzy_target l) (splitlines t))"
    by (simp add: clean_speech_text_def)
  have 4: "length a = length b \<longrightarrow>
        (levenshtein_leq1 a b \<longleftrightarrow> card {i. i < length a \<and> a ! i \<noteq> b ! i} \<le> 1)"
    using leq1_same_length[of a b] by blast
  have 5: "length b = Suc (length a) \<longrightarrow>
        (levenshtein_leq1 a b \<longleftrightarrow> (\<exists>i<length b. take i b @ drop (Suc i) b = a))"
    using leq1_longer[of b a] by blast
  have 6: "length a = Suc (length b) \<longrightarrow>
        (levenshtein_leq1 a b \<longleftrightarrow> (\<exists>i<length a. take i a @ drop (Suc i) a = b))"
    using leq1_shorter[of a b] by blast
  show ?thesis
    using 1 T_LEN_val window_clean_explicit[of w] 2 3 levenshtein_leq1_edit_distance[of a b] 4 5 6
      punct_line_upper punct_window_clean punct_line_removed two_flips_kept
      flipped_line_matches flipped_line_removed
    by blast
qed


lemma flipped_line_letters:
  "\<forall>c\<in>set (upper ''CONGRESSIOVAL RECORD''). is_alpha c \<longrightarrow> is_AZ c"
  by code_simp

theorem fuzzy_filter_removes_iff_within_distance_1_witness:
  "line_contains_fuzzy_target ''CONGRESSIOVAL RECORD''
   \<and> removed_as_specified ''CONGRESSIOVAL RECORD''
   \<and> (\<exists>L\<in>{T_LEN - 1, T_LEN, T_LEN + 1}. \<exists>i. i + L \<le> length (upper ''CONGRESSIOVAL RECORD'') \<and>
        edit_distance
          (filter (\<lambda>c. c \<in> set ''ABCDEFGHIJKLMNOPQRSTUVWXYZ '')
             (slice (upper ''CONGRESSIOVAL RECORD'') i (i + L)))
          ''CONGRESSIONAL RECORD'' \<le> 1)
   \<and> length ''RECORD'' = length ''RECURD''
   \<and> levenshtein_leq1 ''RECORD'' ''RECURD''
   \<and> card {i. i < length ''RECORD'' \<and> ''RECORD'' ! i \<noteq> ''RECURD'' ! i} \<le> 1
   \<and> length ''RECORD'' = Suc (length ''RECRD'')
   \<and> levenshtein_leq1 ''RECRD'' ''RECORD''
   \<and> (\<exists>i<length ''RECORD''. take i ''RECORD'' @ drop (Suc i) ''RECORD'' = ''RECRD'')
   \<and> levenshtein_leq1 ''RECORD'' ''RECRD''"
proof -
  have l1: "length ''RECORD'' = length ''RECURD''" by simp
  have l2: "length ''RECORD'' = Suc (length ''RECRD'')" by simp
  have e1: "levenshtein_leq1 ''RECORD'' ''RECURD''" by code_simp
  have e2: "levenshtein_leq1 ''RECRD'' ''RECORD''" by code_simp
  have e3: "levenshtein_leq1 ''RECORD'' ''RECRD''" by code_simp
  show ?thesis
    using fuzzy_filter_removes_iff_within_distance_1[of "''CONGRESSIOVAL RECORD''" "[]" "[]"
        "''RECORD''" "''RECURD''"]
      fuzzy_filter_removes_iff_within_distance_1[of "[]" "[]" "[]" "''RECRD''" "''RECORD''"]
      l1 l2 e1 e2 e3 flipped_line_letters
    by blast
qed

text \<open>
  C7, as claimed, fails. The window keeps the letters \<open>A\<close>..\<open>Z\<close> only, so an accented letter
  is taken out like punctuation: the line \<open>CONGRESSIONAL\<close>, space, two capital E with acute,
  \<open>RECORD\<close> is removed by the filter, although no window of it that keeps its letters and
  spaces is within distance 1 of the target phrase.
\<close>

theorem accented_letters_are_stripped:
  "upper (''CONGRESSIONAL '' @ [CHR 0xC9, CHR 0xC9] @ ''RECORD'')
     = ''CONGRESSIONAL '' @ [CHR 0xC9, CHR 0xC9] @ ''RECORD''
   \<and> is_alpha (CHR 0xC9)
   \<and> line_contains_fuzzy_target (''CONGRESSIONAL '' @ [CHR 0xC9, CHR 0xC9] @ ''RECORD'')
   \<and> \<not> removed_as_specified (''CONGRESSIONAL '' @ [CHR 0xC9, CHR 0xC9] @ ''RECORD'')
   \<and> clean_speech_text
        (''first'' @ LF # (''CONGRESSIONAL '' @ [CHR 0xC9, CHR 0xC9] @ ''RECORD'') @ LF # ''last'')
       = ''first'' @ LF # ''last''"
proof -
  have a: "is_alpha (CHR 0xC9)" by code_simp
  show ?thesis
    using a accent_line_upper accent_line_removed accent_line_not_specified accent_line_clean
    unfolding accent_line_def by blast
qed

subsection \<open>A second pass of the filter\<close>

lemma clean_speech_text_kept: "clean_speech_text t = join_lf (kept_lines t)"
  by (simp add: clean_speech_text_def kept_lines_def)

lemma kept_no_break: "\<forall>l\<in>set (kept_lines t). \<forall>c\<in>set l. \<not> is_linebreak c"
  unfolding kept_lines_def splitlines_def
  using split_lines_no_break[of _ "[]" t] by auto

lemma splitlines_clean_speech_text: "splitlines (clean_speech_text t) = chop (kept_lines t)"
  unfolding clean_speech_text_kept splitlines_def by (rule split_join[OF kept_no_break])

lemma second_pass_lines:
  "\<forall>l\<in>set (splitlines (clean_speech_text t)). \<not> line_contains_fuzzy_target l"
  unfolding splitlines_clean_speech_text
  using set_chop[of "kept_lines t"] by (auto simp: kept_lines_def)

lemma second_pass_join:
  "clean_speech_text (clean_speech_text t) = join_lf (splitlines (clean_speech_text t))"
proof -
  have "filter (\<lambda>line. \<not> line_contains_fuzzy_target line) (splitlines (clean_speech_text t))
      = splitlines (clean_speech_text t)"
    using second_pass_lines by (simp add: filter_id_conv)
  then show ?thesis by (simp add: clean_speech_text_def[of "clean_speech_text t"])
qed

lemma second_pass_result:
  "clean_speech_text (clean_speech_text t) =
     (if clean_speech_text t \<noteq> [] \<and> last (clean_speech_text t) = LF
      then butlast (clean_speech_text t) else clean_speech_text t)"
  unfolding second_pass_join splitlines_clean_speech_text
  using join_chop[OF kept_no_break[of t]] by (simp add: clean_speech_text_kept)

text \<open>
  C8, as claimed, fails: on the text \<open>a\<close> followed by two line feeds the first pass returns
  \<open>a\<close> followed by one line feed, and the second pass returns \<open>a\<close>.
\<close>

theorem clean_speech_text_not_idempotent:
  "clean_speech_text [CHR ''a'', LF, LF] = [CHR ''a'', LF]
   \<and> clean_speech_text (clean_speech_text [CHR ''a'', LF, LF]) = [CHR ''a'']
   \<and> clean_speech_text (clean_speech_text [CHR ''a'', LF, LF])
       \<noteq> clean_speech_text [CHR ''a'', LF, LF]"
  by code_simp

text \<open>
  C8, amended. For every text, no line of the filter's output fuzzily contains the target,
  so a second pass removes no line: it returns the lines of the first output joined again.
  That is the first output itself, unless the first output ends with a line feed; then the
  second pass returns it without that final line feed.
\<close>

theorem clean_speech_text_second_pass:
  "(\<forall>l\<in>set (splitlines (clean_speech_text t)). \<not> line_contains_fuzzy_target l)
   \<and> clean_speech_text (clean_speech_text t) = join_lf (splitlines (clean_speech_text t))
   \<and> clean_speech_text (clean_speech_text t) =
       (if clean_speech_text t \<noteq> [] \<and> last (clean_speech_text t) = LF
        then butlast (clean_speech_text t) else clean_speech_text t)"
  using second_pass_lines[of t] second_pass_join[of t] second_pass_result[of t] by simp

theorem clean_speech_text_second_pass_witness:
  "splitlines (clean_speech_text (''first'' @ LF # ''CONGRESSIOVAL RECORD'' @ LF # ''last''))
     = [''first'', ''last'']
   \<and> \<not> line_contains_fuzzy_target ''first'' \<and> \<not> line_contains_fuzzy_target ''last''
   \<and> clean_speech_text (clean_speech_text (''first'' @ LF # ''CONGRESSIOVAL RECORD'' @ LF # ''last''))
     = clean_speech_text (''first'' @ LF # ''CONGRESSIOVAL RECORD'' @ LF # ''last'')"
proof -
  have s: "splitlines (''first'' @ LF # ''last'') = [''first'', ''last'']" by code_simp
  have n: "last (''first'' @ LF # ''last'') \<noteq> LF" by code_simp
  show ?thesis
    using clean_speech_text_second_pass[of "''first'' @ LF # ''CONGRESSIOVAL RECORD'' @ LF # ''last''"]
      n
    unfolding flipped_line_removed s by simp
qed

section \<open>Properties of the section mapper\<close>

lemma rstrip_keeps_head:
  "xs = [] \<or> \<not> P (hd xs) \<Longrightarrow> dropWhile P (rev (dropWhile P (rev xs))) = rev (dropWhile P (rev xs))"
  by (metis (no_types, lifting) dropWhile_eq_Nil_conv dropWhile_eq_self_iff
    dropWhile_last last_rev rev.simps(1) rev_rev_ident)

lemma strip_idem: "strip (strip s) = strip s"
proof -
  let ?u = "dropWhile is_space s"
  let ?w = "rev (dropWhile is_space (rev ?u))"
  have h: "?u = [] \<or> \<not> is_space (hd ?u)" by (metis hd_dropWhile)
  have "dropWhile is_space ?w = ?w" using h by (rule rstrip_keeps_head[of "dropWhile is_space s" is_space])
  then show ?thesis by (simp add: strip_def)
qed

lemma assign_title_first:
  "i < length secs \<Longrightarrow> sec_contains (secs ! i) pos \<Longrightarrow> \<forall>j<i. \<not> sec_contains (secs ! j) pos
     \<Longrightarrow> assign_title secs pos = strip (fst (secs ! i))"
proof (induction secs pos arbitrary: i rule: assign_title.induct)
  case (1 pos) then show ?case by simp
next
  case (2 t a b secs pos)
  show ?case
  proof (cases i)
    case 0 with 2 show ?thesis by (simp add: sec_contains_def)
  next
    case (Suc k)
    have "\<not> sec_contains (((t,a,b) # secs) ! 0) pos" using 2(4) Suc by blast
    then have n: "\<not> (a \<le> pos \<and> pos < b)" by (simp add: sec_contains_def)
    have "assign_title secs pos = strip (fst (secs ! k))"
      using 2 Suc n by (intro 2(1)) auto
    then show ?thesis using n Suc by auto
  qed
qed

lemma assign_title_none:
  "\<forall>i<length secs. \<not> sec_contains (secs ! i) pos \<Longrightarrow> assign_title secs pos = []"
proof (induction secs pos rule: assign_title.induct)
  case (1 pos) then show ?case by simp
next
  case (2 t a b secs pos)
  have "\<not> sec_contains (((t,a,b) # secs) ! 0) pos" using 2(2) by blast
  then have n: "\<not> (a \<le> pos \<and> pos < b)" by (simp add: sec_contains_def)
  have "\<forall>i<length secs. \<not> sec_contains (secs ! i) pos"
    using 2(2) by auto
  then have "assign_title secs pos = []" using 2(1) n by simp
  then show ?case using n by auto
qed

lemma extract_sections_nth:
  "i < length titles \<Longrightarrow> extract_sections text titles ! i =
     (strip (fst (titles ! i)), tb_end (titles ! i),
      if Suc i < length titles then tb_start (titles ! Suc i) else length text)"
  by (auto simp: extract_sections_def tb_end_def tb_start_def split: prod.splits)

lemma ordered_mono:
  "ordered_titles titles \<Longrightarrow> i < j \<Longrightarrow> j < length titles \<Longrightarrow> tb_start (titles ! Suc i) \<le> tb_end (titles ! j)"
proof (induction j)
  case 0 then show ?case by simp
next
  case (Suc j)
  show ?case
  proof (cases "i = j")
    case True
    then show ?thesis using Suc.prems by (simp add: ordered_titles_def)
  next
    case False
    then have "tb_start (titles ! Suc i) \<le> tb_end (titles ! j)" using Suc by simp
    also have "\<dots> \<le> tb_start (titles ! Suc j)" using Suc.prems by (simp add: ordered_titles_def)
    also have "\<dots> \<le> tb_end (titles ! Suc j)" using Suc.prems by (simp add: ordered_titles_def)
    finally show ?thesis .
  qed
qed

lemma sections_disjoint:
  assumes "ordered_titles titles" "i < j" "j < length titles"
    "sec_contains (extract_sections text titles ! i) pos"
  shows "\<not> sec_contains (extract_sections text titles ! j) pos"
proof -
  have "pos < tb_start (titles ! Suc i)"
    using assms by (simp add: extract_sections_nth sec_contains_def)
  also have "\<dots> \<le> tb_end (titles ! j)" using ordered_mono[OF assms(1,2,3)] .
  finally show ?thesis using assms by (simp add: extract_sections_nth sec_contains_def)
qed


text \<open>
  The sections and the assignment loop. For title blocks in ascending order, section \<open>i\<close>
  runs from the end of title block \<open>i\<close> to the start of title block \<open>i + 1\<close>, the last one to
  the end of the text. A position is held by at most one section; when a section holds it
  (its start included, its end excluded) the loop gives that section's title, and when
  none does it gives the empty title.
\<close>

lemma title_assignment_unique_section:
  assumes ord: "ordered_titles titles"
  shows "length (extract_sections text titles) = length titles
    \<and> (\<forall>i<length titles. extract_sections text titles ! i =
          (strip (fst (titles ! i)), tb_end (titles ! i),
           if Suc i < length titles then tb_start (titles ! Suc i) else length text))
    \<and> (\<forall>i<length titles. sec_contains (extract_sections text titles ! i) pos \<longrightarrow>
          (\<forall>j<length titles. sec_contains (extract_sections text titles ! j) pos \<longrightarrow> j = i)
          \<and> assign_title (extract_sections text titles) pos = fst (extract_sections text titles ! i))
    \<and> ((\<forall>i<length titles. \<not> sec_contains (extract_sections text titles ! i) pos) \<longrightarrow>
          assign_title (extract_sections text titles) pos = [])
    \<and> (\<forall>i<length titles. sec_contains (extract_sections text titles ! i) pos \<longleftrightarrow>
          tb_end (titles ! i) \<le> pos \<and>
          pos < (if Suc i < length titles then tb_start (titles ! Suc i) else length text))"
proof -
  let ?S = "extract_sections text titles"
  have len: "length ?S = length titles" by (simp add: extract_sections_def)
  have uniq: "i = j" if "i < length titles" "j < length titles"
      "sec_contains (?S ! i) pos" "sec_contains (?S ! j) pos" for i j
  proof (rule ccontr)
    assume "i \<noteq> j"
    then consider "i < j" | "j < i" by linarith
    then show False
    proof cases
      case 1
      show False using sections_disjoint[OF ord 1 that(2) that(3)] that(4) by simp
    next
      case 2
      show False using sections_disjoint[OF ord 2 that(1) that(4)] that(3) by simp
    qed
  qed
  have asg: "assign_title ?S pos = fst (?S ! i)" if "i < length titles" "sec_contains (?S ! i) pos" for i
  proof -
    have "\<forall>j<i. \<not> sec_contains (?S ! j) pos" using uniq that by (metis less_trans nat_neq_iff)
    then have "assign_title ?S pos = strip (fst (?S ! i))"
      using that len by (intro assign_title_first) auto
    then show ?thesis using that by (simp add: extract_sections_nth strip_idem)
  qed
  have none: "(\<forall>i<length titles. \<not> sec_contains (?S ! i) pos) \<longrightarrow> assign_title ?S pos = []"
    using assign_title_none[of ?S pos] len by simp
  show ?thesis using len uniq asg none
    by (auto simp: extract_sections_nth sec_contains_def)
qed

lemma ex_ordered: "ordered_titles example_titles"
  by (simp add: ordered_titles_def example_titles_def tb_start_def tb_end_def nth_Cons split: nat.splits)

lemma ex_len: "length example_titles = 2" by (simp add: example_titles_def)

lemma ex_s0: "extract_sections example_text example_titles ! 0 = (''THE FIRST BILL'', 15, 40)"
  by (simp add: extract_sections_def example_titles_def example_text_def strip_def is_space_def LF_def upt_rec)

lemma ex_s1: "extract_sections example_text example_titles ! 1 = (''THE SECOND BILL'', 56, 90)"
  by (simp add: extract_sections_def example_titles_def example_text_def strip_def is_space_def LF_def upt_rec)

lemma title_assignment_unique_section_example:
  "ordered_titles example_titles
   \<and> sec_contains (extract_sections example_text example_titles ! 0) 15
   \<and> assign_title (extract_sections example_text example_titles) 15 = ''THE FIRST BILL''
   \<and> length example_titles = 2
   \<and> \<not> sec_contains (extract_sections example_text example_titles ! 0) 7
   \<and> \<not> sec_contains (extract_sections example_text example_titles ! 1) 7
   \<and> assign_title (extract_sections example_text example_titles) 7 = []"
proof -
  have c: "sec_contains (extract_sections example_text example_titles ! 0) 15"
    unfolding ex_s0 by (simp add: sec_contains_def)
  have n: "\<forall>i<length example_titles. \<not> sec_contains (extract_sections example_text example_titles ! i) 7"
    using ex_s0 ex_s1 by (auto simp: sec_contains_def less_Suc_eq ex_len numeral_2_eq_2)
  have z: "0 < length example_titles" by (simp add: ex_len)
  note u = title_assignment_unique_section[OF ex_ordered, of example_text 15, THEN conjunct2, THEN conjunct2, THEN conjunct1,
      rule_format, OF z c]
  have a: "assign_title (extract_sections example_text example_titles) 15 = ''THE FIRST BILL''"
    using u[THEN conjunct2] by (simp add: ex_s0)
  note v = title_assignment_unique_section[OF ex_ordered, of example_text 7, THEN conjunct2, THEN conjunct2, THEN conjunct2,
      THEN conjunct1, THEN mp, OF n]
  have b: "assign_title (extract_sections example_text example_titles) 7 = []"
    by (rule v)
  have n0: "\<not> sec_contains (extract_sections example_text example_titles ! 0) 7"
    unfolding ex_s0 by (simp add: sec_contains_def)
  have n1: "\<not> sec_contains (extract_sections example_text example_titles ! 1) 7"
    unfolding ex_s1 by (simp add: sec_contains_def)
  show ?thesis using ex_ordered c n0 n1 a b ex_len by blast
qed

section \<open>The titles the worker assigns\<close>

subsection \<open>Termination of the block search\<close>

lemma lm_cell_inv:
  assumes "alo \<le> i" "i < ahi" "lm_cell l i j (n, m) = (n', m')"
    "snd (snd m) \<noteq> 0 \<longrightarrow> fst m < ahi \<and> alo < fst m + snd (snd m)"
  shows "snd (snd m') \<noteq> 0 \<longrightarrow> fst m' < ahi \<and> alo < fst m' + snd (snd m')"
proof -
  obtain bi bj bs where m: "m = (bi, bj, bs)" by (cases m)
  define k where "k = (if j = 0 then 0 else l ! (j - 1)) + 1"
  have k1: "1 \<le> k" by (simp add: k_def)
  have m': "m' = (if k > bs then (i + 1 - k, j + 1 - k, k) else (bi, bj, bs))"
    using assms(3) unfolding lm_cell_def m k_def Let_def by auto
  show ?thesis
  proof (cases "k > bs")
    case True
    then have "m' = (i + 1 - k, j + 1 - k, k)" using m' by simp
    then show ?thesis using k1 assms(1,2) by auto
  next
    case False
    then have "m' = m" using m' m by simp
    then show ?thesis using assms(4) by simp
  qed
qed

lemma lm_row_inv:
  assumes "alo \<le> i" "i < ahi" "lm_row a b blo bhi i (l, best) = (l', best')"
    "snd (snd best) \<noteq> 0 \<longrightarrow> fst best < ahi \<and> alo < fst best + snd (snd best)"
  shows "snd (snd best') \<noteq> 0 \<longrightarrow> fst best' < ahi \<and> alo < fst best' + snd (snd best')"
proof -
  have f: "fold (lm_cell l i) js (n, m) = (n', m') \<Longrightarrow>
        snd (snd m) \<noteq> 0 \<longrightarrow> fst m < ahi \<and> alo < fst m + snd (snd m) \<Longrightarrow>
        snd (snd m') \<noteq> 0 \<longrightarrow> fst m' < ahi \<and> alo < fst m' + snd (snd m')" for js n m n' m'
  proof (induction js arbitrary: n m)
    case Nil
    then show ?case by simp
  next
    case (Cons j js)
    obtain n2 m2 where c: "lm_cell l i j (n, m) = (n2, m2)" by (cases "lm_cell l i j (n, m)")
    note inv = lm_cell_inv[OF assms(1,2) c Cons.prems(2)]
    have "fold (lm_cell l i) js (n2, m2) = (n', m')" using Cons.prems(1) c by simp
    from Cons.IH[OF this inv] show ?case .
  qed
  have "fold (lm_cell l i) (filter (\<lambda>j. b ! j = a ! i) [blo ..< bhi]) (replicate (length b) 0, best)
      = (l', best')"
    using assms(3) unfolding lm_row_def by simp
  from f[OF this assms(4)] show ?thesis .
qed

lemma fold_lm_row_inv:
  assumes "\<forall>i\<in>set is. alo \<le> i \<and> i < ahi"
    "fold (lm_row a b blo bhi) is (l, best) = (l', best')"
    "snd (snd best) \<noteq> 0 \<longrightarrow> fst best < ahi \<and> alo < fst best + snd (snd best)"
  shows "snd (snd best') \<noteq> 0 \<longrightarrow> fst best' < ahi \<and> alo < fst best' + snd (snd best')"
  using assms
proof (induction "is" arbitrary: l best)
  case Nil
  then show ?case by simp
next
  case (Cons i "is")
  obtain l2 best2 where r: "lm_row a b blo bhi i (l, best) = (l2, best2)"
    by (cases "lm_row a b blo bhi i (l, best)")
  have i: "alo \<le> i" "i < ahi" using Cons.prems(1) by simp_all
  note inv = lm_row_inv[OF i r Cons.prems(3)]
  have rest: "\<forall>i\<in>set is. alo \<le> i \<and> i < ahi" using Cons.prems(1) by simp
  have "fold (lm_row a b blo bhi) is (l2, best2) = (l', best')"
    using Cons.prems(2) r by simp
  from Cons.IH[OF rest this inv] show ?case .
qed

lemma find_longest_match_bounds:
  assumes "find_longest_match a b alo ahi blo bhi = (i, j, k)" "k \<noteq> 0"
  shows "i < ahi \<and> alo < i + k"
proof -
  obtain l' where f: "fold (lm_row a b blo bhi) [alo ..< ahi] (replicate (length b) 0, (alo, blo, 0))
      = (l', (i, j, k))"
    using assms(1) unfolding find_longest_match_def
    by (cases "fold (lm_row a b blo bhi) [alo ..< ahi] (replicate (length b) 0, (alo, blo, 0))") simp
  have "snd (snd (i, j, k)) \<noteq> 0 \<longrightarrow> fst (i, j, k) < ahi \<and> alo < fst (i, j, k) + snd (snd (i, j, k))"
    by (rule fold_lm_row_inv[OF _ f]) simp_all
  then show ?thesis using assms(2) by simp
qed

termination matching_total
proof (relation "measure (\<lambda>(a, b, alo, ahi, blo, bhi). ahi - alo)", goal_cases)
  case 1
  show ?case by simp
next
  case (2 a b alo ahi blo bhi i y j k)
  then have "find_longest_match a b alo ahi blo bhi = (i, j, k)" by simp
  from find_longest_match_bounds[OF this] 2 have "i < ahi" by blast
  then have "i - alo < ahi - alo" using 2 by arith
  then show ?case by simp
next
  case (3 a b alo ahi blo bhi i y j k)
  then have "find_longest_match a b alo ahi blo bhi = (i, j, k)" by simp
  from find_longest_match_bounds[OF this] 3 have "alo < i + k" by blast
  then have "ahi - (i + k) < ahi - alo" using 3 by arith
  then show ?case by simp
qed

subsection \<open>Rows and offsets\<close>

lemma row_offsets_length: "length (row_offsets n speeches) = length speeches"
  by (induction speeches arbitrary: n) simp_all

lemma row_offsets_nth:
  "idx < length speeches \<Longrightarrow>
     row_offsets n speeches ! idx = n + length (reconstruct (take idx speeches))"
proof (induction speeches arbitrary: n idx)
  case Nil
  then show ?case by simp
next
  case (Cons s speeches)
  show ?case
  proof (cases idx)
    case 0
    then show ?thesis by (simp add: reconstruct_def)
  next
    case (Suc k)
    then have "k < length speeches" using Cons.prems by simp
    from Cons.IH[OF this, of "n + length s + 2"] show ?thesis
      using Suc by (simp add: reconstruct_def)
  qed
qed

lemma worker_titles_nth:
  assumes "idx < length speeches"
  shows "worker_titles speeches ! idx =
     assign_title
       (extract_sections (remove_headers_with_fuzz (reconstruct speeches))
          (find_titles (remove_headers_with_fuzz (reconstruct speeches))))
       (length (reconstruct (take idx speeches)))"
  using assms row_offsets_nth[OF assms, of 0]
  by (simp add: worker_titles_def assign_rows_def Let_def row_offsets_length)

subsection \<open>A header before a row\<close>

lemma bill_reconstruct: "reconstruct bill_rows = bill_text"
  by code_simp

lemma bill_lines:
  "splitlines bill_text = [''CONGRESSIONAL RECORD-SENATE'', ''THE FIRST BILL HERE'', [],
     ''I rise.'', ''THE SECOND BILL NOW'', [], ''I object.'', []]"
  by code_simp

lemma bill_remove_headers: "remove_headers_with_fuzz bill_text = bill_cleaned"
  by code_simp

lemma bill_titles:
  "find_titles bill_cleaned =
     [(''THE FIRST BILL HERE'' @ [LF], 0, 20), (''THE SECOND BILL NOW'' @ [LF], 29, 49)]"
  by code_simp

lemma bill_sections:
  "extract_sections bill_cleaned
     [(''THE FIRST BILL HERE'' @ [LF], 0, 20), (''THE SECOND BILL NOW'' @ [LF], 29, 49)]
   = [(''THE FIRST BILL HERE'', 20, 29), (''THE SECOND BILL NOW'', 49, 60)]"
  by code_simp

lemma bill_offsets: "row_offsets 0 bill_rows = [0, 49, 78]"
  by code_simp

lemma bill_row_in_text: "slice bill_text 49 56 = ''I rise.''"
  by code_simp

lemma bill_row_in_cleaned: "slice bill_cleaned 21 28 = ''I rise.''"
  by code_simp

lemma bill_worker: "worker_titles bill_rows = [[], ''THE SECOND BILL NOW'', []]"
  unfolding worker_titles_def Let_def assign_rows_def bill_reconstruct bill_remove_headers
    bill_titles bill_sections bill_offsets
  by code_simp

text \<open>
  C3. The loop of \<^verbatim>\<open>worker_process\<close> looks each row up at the offset the row has in the
  reconstructed text, while the sections are spans of the text from which the headers
  have been removed. On the three rows of \<open>bill_rows\<close> the header line of the first row is
  removed, and the sections are \<open>[20, 29)\<close> under \<open>THE FIRST BILL HERE\<close> and \<open>[49, 60)\<close> under
  \<open>THE SECOND BILL NOW\<close>. The second row, \<open>I rise.\<close>, starts at offset 21 of that text, inside
  the first section, and the third row, \<open>I object.\<close>, at offset 50, inside the second one;
  they are looked up at the offsets 49 and 78, and are assigned \<open>THE SECOND BILL NOW\<close> and
  the empty title.
\<close>

theorem worker_assigns_titles_at_shifted_offsets:
  "reconstruct bill_rows =
     ''CONGRESSIONAL RECORD-SENATE'' @ [LF] @ ''THE FIRST BILL HERE'' @ [LF, LF]
       @ ''I rise.'' @ [LF] @ ''THE SECOND BILL NOW'' @ [LF, LF] @ ''I object.'' @ [LF, LF]
   \<and> remove_headers_with_fuzz (reconstruct bill_rows) =
     ''THE FIRST BILL HERE'' @ [LF, LF]
       @ ''I rise.'' @ [LF] @ ''THE SECOND BILL NOW'' @ [LF, LF] @ ''I object.'' @ [LF]
   \<and> find_titles (remove_headers_with_fuzz (reconstruct bill_rows)) =
     [(''THE FIRST BILL HERE'' @ [LF], 0, 20), (''THE SECOND BILL NOW'' @ [LF], 29, 49)]
   \<and> extract_sections (remove_headers_with_fuzz (reconstruct bill_rows))
        (find_titles (remove_headers_with_fuzz (reconstruct bill_rows))) =
     [(''THE FIRST BILL HERE'', 20, 29), (''THE SECOND BILL NOW'', 49, 60)]
   \<and> slice (remove_headers_with_fuzz (reconstruct bill_rows)) 21 28 = ''I rise.''
   \<and> slice (remove_headers_with_fuzz (reconstruct bill_rows)) 50 59 = ''I object.''
   \<and> sec_contains (''THE FIRST BILL HERE'', 20, 29) 21
   \<and> sec_contains (''THE SECOND BILL NOW'', 49, 60) 50
   \<and> row_offsets 0 bill_rows = [0, 49, 78]
   \<and> slice (reconstruct bill_rows) 49 56 = ''I rise.''
   \<and> slice (reconstruct bill_rows) 78 87 = ''I object.''
   \<and> worker_titles bill_rows = [[], ''THE SECOND BILL NOW'', []]"
proof -
  have a: "slice bill_cleaned 50 59 = ''I object.''" by code_simp
  have b: "slice bill_text 78 87 = ''I object.''" by code_simp
  have c: "sec_contains (''THE FIRST BILL HERE'', 20, 29) 21"
    "sec_contains (''THE SECOND BILL NOW'', 49, 60) 50"
    by (simp_all add: sec_contains_def)
  show ?thesis
    unfolding bill_reconstruct bill_remove_headers bill_titles bill_sections
    using bill_row_in_text bill_row_in_cleaned a b c bill_offsets bill_worker
    by (simp add: bill_text_def bill_cleaned_def)
qed

section \<open>Properties of the title detector\<close>























section \<open>Properties of the turn scanner\<close>

subsection \<open>Scenario A\<close>

lemma scenario_A_length: "length scenario_A = 51"
  by code_simp

lemma scenario_A_prepared: "replace_nbsp (strip_note_blocks scenario_A) = scenario_A"
  by code_simp

lemma scenario_A_events: "sorted_events scenario_A = [(Speaker, 0, 12), (Speaker, 29, 41)]"
  by code_simp

lemma scenario_A_label1: "speaker_label scenario_A 0 12 = ''Mr. SMITH''"
  by code_simp

lemma scenario_A_label2: "speaker_label scenario_A 29 41 = ''Mr. JONES''"
  by code_simp

lemma scenario_A_turn1:
  "close_turn scenario_A ''Mr. SMITH'' 12 29 =
     \<lparr> speaker = ''Mr. SMITH'', span_start = 12, span_end = 29, speech = ''This is a test.'' \<rparr>"
  by code_simp

lemma scenario_A_turn2:
  "close_turn scenario_A ''Mr. JONES'' 41 51 =
     \<lparr> speaker = ''Mr. JONES'', span_start = 41, span_end = 51, speech = ''A reply.'' \<rparr>"
  by code_simp

lemma scenario_A_turns:
  "scrape_turns scenario_A =
     [\<lparr> speaker = ''Mr. SMITH'', span_start = 12, span_end = 29, speech = ''This is a test.'' \<rparr>,
      \<lparr> speaker = ''Mr. JONES'', span_start = 41, span_end = 51, speech = ''A reply.'' \<rparr>]"
  unfolding scrape_turns_def Let_def scenario_A_prepared scenario_A_events
  by (simp add: scenario_A_label1 scenario_A_label2 scenario_A_turn1 scenario_A_turn2
      scenario_A_length)

text \<open>
  C2. On the transcript of scenario A, \<open>scrape\<close> yields the two turns of Mr. SMITH and
  Mr. JONES. The first turn ends at offset 29, where the second speaker line starts, and
  the second at offset 51, the end of the transcript. In general a speaker event met
  while a turn is open closes that turn at the start of the event, and at the end of the
  events an open turn is closed at the end of the text.
\<close>

theorem scrape_scenario_A:
  "scrape (''  Mr. SMITH. This is a test.'' @ [LF] @ ''  Mr. JONES. A reply.'' @ [LF])
     = [(''Mr. SMITH'', ''This is a test.''), (''Mr. JONES'', ''A reply.'')]
   \<and> scrape_turns (''  Mr. SMITH. This is a test.'' @ [LF] @ ''  Mr. JONES. A reply.'' @ [LF])
     = [\<lparr> speaker = ''Mr. SMITH'', span_start = 12, span_end = 29, speech = ''This is a test.'' \<rparr>,
        \<lparr> speaker = ''Mr. JONES'', span_start = 41, span_end = 51, speech = ''A reply.'' \<rparr>]
   \<and> sorted_events (''  Mr. SMITH. This is a test.'' @ [LF] @ ''  Mr. JONES. A reply.'' @ [LF])
     = [(Speaker, 0, 12), (Speaker, 29, 41)]
   \<and> length (''  Mr. SMITH. This is a test.'' @ [LF] @ ''  Mr. JONES. A reply.'' @ [LF]) = 51
   \<and> assemble text (Some (current_speaker, speech_start)) ((Speaker, s, e) # evs)
     = close_turn text current_speaker speech_start s
       # assemble text (Some (speaker_label text s e, e)) evs
   \<and> assemble text (Some (current_speaker, speech_start)) []
     = [close_turn text current_speaker speech_start (length text)]
   \<and> span_end (close_turn text current_speaker speech_start boundary) = boundary"
  unfolding scenario_A_def[symmetric]
  by (simp add: scrape_def scenario_A_turns scenario_A_events scenario_A_length close_turn_def)

section \<open>Properties of the matcher\<close>

lemma rm_Rep_iff:
  "j \<in> set (rm (Rep r lo hi) t i) \<longleftrightarrow>
     (if hi = Some 0 then j = i
      else (lo = 0 \<and> j = i) \<or>
           (\<exists>q\<in>set (rm r t i). i < q \<and> q \<le> length t \<and> j \<in> set (rm (Rep r (lo - 1) (dec hi)) t q)))"
  by (subst rm.simps(9)) auto

lemma rm_RepLazy_iff:
  "j \<in> set (rm (RepLazy r lo hi) t i) \<longleftrightarrow>
     (if hi = Some 0 then j = i
      else (lo = 0 \<and> j = i) \<or>
           (\<exists>q\<in>set (rm r t i). i < q \<and> q \<le> length t \<and> j \<in> set (rm (RepLazy r (lo - 1) (dec hi)) t q)))"
  by (subst rm.simps(10)) auto

lemma rm_Rep_cases:
  assumes "j \<in> set (rm (Rep r lo hi) t i)"
  obtains "j = i" "hi = Some 0 \<or> lo = 0"
  | q where "hi \<noteq> Some 0" "q \<in> set (rm r t i)" "i < q" "q \<le> length t"
      "j \<in> set (rm (Rep r (lo - 1) (dec hi)) t q)"
  using assms unfolding rm_Rep_iff[of j r lo hi t i] by (cases "hi = Some 0") auto

lemma rm_RepLazy_cases:
  assumes "j \<in> set (rm (RepLazy r lo hi) t i)"
  obtains "j = i" "hi = Some 0 \<or> lo = 0"
  | q where "hi \<noteq> Some 0" "q \<in> set (rm r t i)" "i < q" "q \<le> length t"
      "j \<in> set (rm (RepLazy r (lo - 1) (dec hi)) t q)"
  using assms unfolding rm_RepLazy_iff[of j r lo hi t i] by (cases "hi = Some 0") auto

lemma rm_ge: "j \<in> set (rm r t i) \<Longrightarrow> i \<le> j"
proof (induction r t i arbitrary: j rule: rm.induct)
  case (7 a b t i)
  from 7(3) obtain q where q: "q \<in> set (rm a t i)" "j \<in> set (rm b t q)" by auto
  have "i \<le> q" using 7(1)[OF q(1)] .
  moreover have "q \<le> j" using 7(2)[OF q(1) q(2)] .
  ultimately show ?case by simp
next
  case (8 a b t i)
  from 8(3) have "j \<in> set (rm a t i) \<or> j \<in> set (rm b t i)" by simp
  then show ?case using 8(1) 8(2) by blast
next
  case (9 r lo hi t i)
  from 9(3) show ?case
  proof (cases rule: rm_Rep_cases)
    case 1
    then show ?thesis by simp
  next
    case (2 q)
    have m: "q \<in> set (filter (\<lambda>j. i < j \<and> j \<le> length t) (rm r t i))" using 2 by simp
    have "q \<le> j" using 9(2)[OF 2(1) m 2(5)] .
    with 2 show ?thesis by simp
  qed
next
  case (10 r lo hi t i)
  from 10(3) show ?case
  proof (cases rule: rm_RepLazy_cases)
    case 1
    then show ?thesis by simp
  next
    case (2 q)
    have m: "q \<in> set (filter (\<lambda>j. i < j \<and> j \<le> length t) (rm r t i))" using 2 by simp
    have "q \<le> j" using 10(2)[OF 2(1) m 2(5)] .
    with 2 show ?thesis by simp
  qed
qed (simp_all split: if_splits)

lemma rm_le_length: "j \<in> set (rm r t i) \<Longrightarrow> i \<le> length t \<Longrightarrow> j \<le> length t"
proof (induction r t i arbitrary: j rule: rm.induct)
  case (7 a b t i)
  from 7(3) obtain q where q: "q \<in> set (rm a t i)" "j \<in> set (rm b t q)" by auto
  have "q \<le> length t" using 7(1)[OF q(1) 7(4)] .
  then show ?case using 7(2)[OF q(1) q(2)] by simp
next
  case (8 a b t i)
  from 8(3) have "j \<in> set (rm a t i) \<or> j \<in> set (rm b t i)" by simp
  then show ?case using 8(1) 8(2) 8(4) by blast
next
  case (9 r lo hi t i)
  from 9(3) show ?case
  proof (cases rule: rm_Rep_cases)
    case 1
    then show ?thesis using 9(4) by simp
  next
    case (2 q)
    have m: "q \<in> set (filter (\<lambda>j. i < j \<and> j \<le> length t) (rm r t i))" using 2 by simp
    show ?thesis using 9(2)[OF 2(1) m 2(5) 2(4)] .
  qed
next
  case (10 r lo hi t i)
  from 10(3) show ?case
  proof (cases rule: rm_RepLazy_cases)
    case 1
    then show ?thesis using 10(4) by simp
  next
    case (2 q)
    have m: "q \<in> set (filter (\<lambda>j. i < j \<and> j \<le> length t) (rm r t i))" using 2 by simp
    show ?thesis using 10(2)[OF 2(1) m 2(5) 2(4)] .
  qed
qed (simp_all split: if_splits)

lemma rm_consumes: "consumes r \<Longrightarrow> j \<in> set (rm r t i) \<Longrightarrow> i < j"
proof (induction r arbitrary: i j)
  case (Seq a b)
  from Seq.prems(2) obtain q where q: "q \<in> set (rm a t i)" "j \<in> set (rm b t q)" by auto
  have "consumes a \<or> consumes b" using Seq.prems(1) by simp
  then show ?case
  proof
    assume "consumes a"
    then have "i < q" using Seq.IH(1) q(1) by blast
    moreover have "q \<le> j" using q(2) by (rule rm_ge)
    ultimately show ?thesis by simp
  next
    assume "consumes b"
    then have "q < j" using Seq.IH(2) q(2) by blast
    moreover have "i \<le> q" using q(1) by (rule rm_ge)
    ultimately show ?thesis by simp
  qed
next
  case (Alt a b)
  from Alt.prems(2) have "j \<in> set (rm a t i) \<or> j \<in> set (rm b t i)" by simp
  moreover have "consumes a" "consumes b" using Alt.prems(1) by simp_all
  ultimately show ?case using Alt.IH by blast
next
  case (Rep r lo hi)
  have c: "0 < lo" "hi \<noteq> Some 0" using Rep.prems(1) by simp_all
  from Rep.prems(2) show ?case
  proof (cases rule: rm_Rep_cases)
    case 1
    then show ?thesis using c by simp
  next
    case (2 q)
    have "q \<le> j" using 2(5) by (rule rm_ge)
    then show ?thesis using 2(3) by simp
  qed
next
  case (RepLazy r lo hi)
  have c: "0 < lo" "hi \<noteq> Some 0" using RepLazy.prems(1) by simp_all
  from RepLazy.prems(2) show ?case
  proof (cases rule: rm_RepLazy_cases)
    case 1
    then show ?thesis using c by simp
  next
    case (2 q)
    have "q \<le> j" using 2(5) by (rule rm_ge)
    then show ?thesis using 2(3) by simp
  qed
qed (simp_all split: if_splits)

lemma finditer_from_unfold:
  "finditer_from r t i =
     (if length t < i then []
      else case rm r t i of
             [] \<Rightarrow> finditer_from r t (Suc i)
           | e # _ \<Rightarrow> (i, e) # finditer_from r t (if i < e then e else Suc i))"
  by (rule finditer_from.simps)

lemma finditer_from_past: "length t < i \<Longrightarrow> finditer_from r t i = []"
  by (subst finditer_from_unfold) simp

lemma finditer_from_Nil:
  "i \<le> length t \<Longrightarrow> rm r t i = [] \<Longrightarrow> finditer_from r t i = finditer_from r t (Suc i)"
  by (subst finditer_from_unfold) simp

lemma finditer_from_Cons:
  "i \<le> length t \<Longrightarrow> rm r t i = e # es \<Longrightarrow>
     finditer_from r t i = (i, e) # finditer_from r t (if i < e then e else Suc i)"
  by (subst finditer_from_unfold) simp

lemma finditer_from_props:
  "(s, e) \<in> set (finditer_from r t i) \<Longrightarrow>
     i \<le> s \<and> s \<le> length t \<and> rm r t s \<noteq> [] \<and> e = hd (rm r t s)"
proof (induction r t i rule: finditer_from.induct)
  case (1 r t i)
  show ?case
  proof (cases "length t < i")
    case True
    with 1(3) show ?thesis by (simp add: finditer_from_past)
  next
    case False
    then have le: "i \<le> length t" by simp
    show ?thesis
    proof (cases "rm r t i")
      case Nil
      have "(s, e) \<in> set (finditer_from r t (Suc i))"
        using 1(3) unfolding finditer_from_Nil[OF le Nil] .
      from 1(1)[OF False Nil this] show ?thesis by simp
    next
      case (Cons e' es)
      let ?n = "if i < e' then e' else Suc i"
      have "(s, e) = (i, e') \<or> (s, e) \<in> set (finditer_from r t ?n)"
        using 1(3) unfolding finditer_from_Cons[OF le Cons] by simp
      then show ?thesis
      proof
        assume "(s, e) = (i, e')"
        then show ?thesis using Cons le by simp
      next
        assume a: "(s, e) \<in> set (finditer_from r t ?n)"
        have "?n \<le> s \<and> s \<le> length t \<and> rm r t s \<noteq> [] \<and> e = hd (rm r t s)"
          using 1(2)[OF False Cons a] .
        moreover have "i \<le> ?n" by simp
        ultimately show ?thesis by (meson le_trans)
      qed
    qed
  qed
qed

lemma chained_Nil: "chained lo []"
  by (simp add: chained_def)

lemma chained_weaken: "chained lo ms \<Longrightarrow> lo' \<le> lo \<Longrightarrow> chained lo' ms"
  by (auto simp: chained_def)

lemma chained_Cons:
  "chained n ms \<Longrightarrow> i \<le> e \<Longrightarrow> e \<le> n \<Longrightarrow> chained i ((i, e) # ms)"
  by (auto simp: chained_def)

lemma finditer_from_chained: "chained i (finditer_from r t i)"
proof (induction r t i rule: finditer_from.induct)
  case (1 r t i)
  show ?case
  proof (cases "length t < i")
    case True
    then show ?thesis by (simp add: finditer_from_past chained_Nil)
  next
    case False
    then have le: "i \<le> length t" by simp
    show ?thesis
    proof (cases "rm r t i")
      case Nil
      show ?thesis unfolding finditer_from_Nil[OF le Nil]
        using chained_weaken[OF 1(1)[OF False Nil], of i] by simp
    next
      case (Cons e' es)
      let ?n = "if i < e' then e' else Suc i"
      have ge: "i \<le> e'" using rm_ge[of e' r t i] Cons by simp
      have ih: "chained ?n (finditer_from r t ?n)" using 1(2)[OF False Cons] .
      have "e' \<le> ?n" by simp
      show ?thesis unfolding finditer_from_Cons[OF le Cons]
        using chained_Cons[OF ih ge \<open>e' \<le> ?n\<close>] .
    qed
  qed
qed

subsection \<open>Order of the turns\<close>

lemma speaker_spans_simps [simp]:
  "speaker_spans [] = []"
  "speaker_spans ((Speaker, s, e) # evs) = (s, e) # speaker_spans evs"
  "speaker_spans ((End, s, e) # evs) = speaker_spans evs"
  by (simp_all add: speaker_spans_def is_speaker_def)

lemma chained_tail: "chained c ((s, e) # ms) \<Longrightarrow> chained e ms \<and> c \<le> s \<and> s \<le> e"
  by (auto simp: chained_def)

lemma assemble_inv:
  assumes "sorted (map ev_start evs)" "chained c (speaker_spans evs)"
    "\<forall>ev\<in>set evs. b \<le> ev_start ev"
    "case cur of None \<Rightarrow> True | Some (sp, st) \<Rightarrow> st \<le> c"
  shows "sorted_wrt follows (assemble T cur evs) \<and>
    (\<forall>x\<in>set (assemble T cur evs).
       (case cur of Some (sp, st) \<Rightarrow> span_start x = st | None \<Rightarrow> False)
       \<or> (b \<le> span_start x \<and> c \<le> span_start x))"
  using assms
proof (induction T cur evs arbitrary: b c rule: assemble.induct)
  case (1 T cur)
  then show ?case by (auto simp: close_turn_def split: option.splits)
next
  case (2 T cur s e evs)
  have ch: "chained e (speaker_spans evs)" "c \<le> s" "s \<le> e"
    using chained_tail[of c s e "speaker_spans evs"] 2(3) by simp_all
  have srt: "sorted (map ev_start evs)" using 2(2) by simp
  have lb: "\<forall>ev\<in>set evs. s \<le> ev_start ev" using 2(2) by (simp add: ev_start_def)
  have bs: "b \<le> s" using 2(4) by (simp add: ev_start_def)
  have cur': "case Some (speaker_label T s e, e) of None \<Rightarrow> True | Some (sp, st) \<Rightarrow> st \<le> e"
    by simp
  note ih = 2(1)[OF srt ch(1) lb cur']
  then have r1: "sorted_wrt follows (assemble T (Some (speaker_label T s e, e)) evs)"
    and r2: "\<forall>x\<in>set (assemble T (Some (speaker_label T s e, e)) evs). e \<le> span_start x"
    by auto
  let ?rest = "assemble T (Some (speaker_label T s e, e)) evs"
  have r3: "\<forall>x\<in>set ?rest. b \<le> span_start x \<and> c \<le> span_start x"
    using r2 ch bs by fastforce
  show ?case
  proof (cases cur)
    case None
    then show ?thesis using r1 r3 by simp
  next
    case (Some p)
    obtain sp st where p: "p = (sp, st)" by (cases p)
    have st: "st \<le> c" using 2(5) Some p by simp
    have f: "\<forall>y\<in>set ?rest. follows (close_turn T sp st s) y"
      using r2 ch st by (fastforce simp: follows_def close_turn_def)
    have x0: "span_start (close_turn T sp st s) = st" by (simp add: close_turn_def)
    show ?thesis using r1 r3 f x0 Some p by simp
  qed
next
  case (3 T cur s e evs)
  have ch: "chained c (speaker_spans evs)" using 3(4) by simp
  have srt: "sorted (map ev_start evs)" using 3(3) by simp
  have lb: "\<forall>ev\<in>set evs. s \<le> ev_start ev" using 3(3) by (simp add: ev_start_def)
  have bs: "b \<le> s" using 3(5) by (simp add: ev_start_def)
  have cur': "case (None :: (string \<times> nat) option) of None \<Rightarrow> True | Some (sp, st) \<Rightarrow> st \<le> c"
    by simp
  show ?case
  proof (cases cur)
    case None
    note ih = 3(1)[OF None srt ch lb cur']
    then have "sorted_wrt follows (assemble T None evs)"
      and "\<forall>x\<in>set (assemble T None evs). s \<le> span_start x \<and> c \<le> span_start x"
      by auto
    then show ?thesis using None bs by fastforce
  next
    case (Some p)
    obtain sp st where p: "p = (sp, st)" by (cases p)
    have st: "st \<le> c" using 3(6) Some p by simp
    note ih = 3(2)[OF Some p[symmetric] srt ch lb cur']
    then have r1: "sorted_wrt follows (assemble T None evs)"
      and r2: "\<forall>x\<in>set (assemble T None evs). s \<le> span_start x \<and> c \<le> span_start x"
      by auto
    have r3: "\<forall>x\<in>set (assemble T None evs). b \<le> span_start x \<and> c \<le> span_start x"
      using r2 bs by fastforce
    have f: "\<forall>y\<in>set (assemble T None evs). follows (close_turn T sp st s) y"
      using r2 st by (fastforce simp: follows_def close_turn_def)
    have x0: "span_start (close_turn T sp st s) = st" by (simp add: close_turn_def)
    show ?thesis using r1 r3 f x0 Some p by simp
  qed
qed

lemma chained_sorted_fst: "chained lo ms \<Longrightarrow> sorted (map fst ms)"
proof (induction ms arbitrary: lo)
  case Nil
  then show ?case by simp
next
  case (Cons m ms)
  obtain s e where m: "m = (s, e)" by (cases m)
  have t: "chained e ms" "s \<le> e" using chained_tail[of lo s e ms] Cons.prems m by simp_all
  have "\<forall>x\<in>set ms. e \<le> fst x" using t(1) by (simp add: chained_def)
  then have "\<forall>x\<in>set ms. s \<le> fst x" using t(2) by fastforce
  then show ?case using Cons.IH[OF t(1)] m by simp
qed

lemma filter_speaker_scan:
  "filter is_speaker (scan_events t) = map (\<lambda>(s, e). (Speaker, s, e)) (finditer SPEAKER_REGEX t)"
proof -
  have a: "\<And>ms. filter is_speaker (map (\<lambda>(s, e). (Speaker, s, e)) ms) = map (\<lambda>(s, e). (Speaker, s, e)) ms"
    by (induct_tac ms) (auto simp: is_speaker_def)
  have b: "\<And>ms. filter is_speaker (map (\<lambda>(s, e). (End, s, e)) ms) = []"
    by (induct_tac ms) (auto simp: is_speaker_def)
  show ?thesis unfolding scan_events_def filter_append a b by simp
qed

lemma speaker_spans_sorted_events:
  "speaker_spans (sorted_events t) = finditer SPEAKER_REGEX t"
proof -
  let ?ms = "finditer SPEAKER_REGEX t"
  let ?mk = "\<lambda>(s, e). (Speaker, s, e)"
  have ch: "chained 0 ?ms" unfolding finditer_def by (rule finditer_from_chained)
  have "map ev_start (map ?mk ?ms) = map fst ?ms"
    by (induction ?ms) (auto simp: ev_start_def)
  then have srt: "sorted (map ev_start (map ?mk ?ms))"
    using chained_sorted_fst[OF ch] by (simp only:)
  have "filter is_speaker (sorted_events t) = sort_key ev_start (filter is_speaker (scan_events t))"
    unfolding sorted_events_def by (rule filter_sort)
  also have "\<dots> = map ?mk ?ms"
    unfolding filter_speaker_scan using srt by (rule sort_key_id_if_sorted)
  finally show ?thesis
    by (simp add: speaker_spans_def comp_def case_prod_unfold)
qed

lemma assemble_close_turn:
  "x \<in> set (assemble T cur evs) \<Longrightarrow>
     speech x = strip (clean_extraneous (strip (slice T (span_start x) (span_end x))))"
proof (induction T cur evs rule: assemble.induct)
  case (1 T cur)
  then show ?case by (auto simp: close_turn_def split: option.splits)
next
  case (2 T cur s e evs)
  then show ?case by (auto simp: close_turn_def split: option.splits)
next
  case (3 T cur s e evs)
  then show ?case by (auto simp: close_turn_def split: option.splits)
qed

lemma scrape_turns_follow:
  "sorted_wrt follows (scrape_turns raw)"
proof -
  let ?T = "replace_nbsp (strip_note_blocks raw)"
  have a: "sorted (map ev_start (sorted_events ?T))"
    unfolding sorted_events_def by (rule sorted_sort_key)
  have b: "chained 0 (speaker_spans (sorted_events ?T))"
    unfolding speaker_spans_sorted_events finditer_def by (rule finditer_from_chained)
  have c: "\<forall>ev\<in>set (sorted_events ?T). 0 \<le> ev_start ev" by simp
  have d: "case (None :: (string \<times> nat) option) of None \<Rightarrow> True | Some (sp, st) \<Rightarrow> st \<le> 0"
    by simp
  from assemble_inv[OF a b c d, of ?T]
  show ?thesis by (simp add: scrape_turns_def Let_def)
qed

text \<open>
  C1. For every transcript the turns are in ascending order of the start of their span,
  each turn ends no later than any later turn starts, so that the spans are pairwise
  disjoint, and the speech of a turn is cleaned from the slice of the scanned text between
  the bounds of its own span: text between two turns is in no turn.
\<close>

theorem turns_sorted_and_disjoint:
  "sorted (map span_start (scrape_turns raw))
   \<and> (\<forall>i j. i < j \<and> j < length (scrape_turns raw) \<longrightarrow>
         span_end (scrape_turns raw ! i) \<le> span_start (scrape_turns raw ! j)
         \<and> {span_start (scrape_turns raw ! i) ..< span_end (scrape_turns raw ! i)}
           \<inter> {span_start (scrape_turns raw ! j) ..< span_end (scrape_turns raw ! j)} = {})
   \<and> (\<forall>x\<in>set (scrape_turns raw).
         speech x = strip (clean_extraneous (strip
           (slice (replace_nbsp (strip_note_blocks raw)) (span_start x) (span_end x)))))
   \<and> scrape raw = map (\<lambda>x. (speaker x, speech x)) (scrape_turns raw)"
proof -
  let ?ts = "scrape_turns raw"
  have f: "sorted_wrt follows ?ts" by (rule scrape_turns_follow)
  have p: "\<And>i j. i < j \<Longrightarrow> j < length ?ts \<Longrightarrow> follows (?ts ! i) (?ts ! j)"
    using f by (simp add: sorted_wrt_iff_nth_less)
  have s: "sorted (map span_start ?ts)"
    unfolding sorted_wrt_map using f
    by (rule sorted_wrt_mono_rel[rotated]) (simp add: follows_def)
  have d: "\<forall>i j. i < j \<and> j < length ?ts \<longrightarrow>
         span_end (?ts ! i) \<le> span_start (?ts ! j)
         \<and> {span_start (?ts ! i) ..< span_end (?ts ! i)}
           \<inter> {span_start (?ts ! j) ..< span_end (?ts ! j)} = {}"
  proof (intro allI impI)
    fix i j
    assume "i < j \<and> j < length ?ts"
    then have "follows (?ts ! i) (?ts ! j)" using p by blast
    then show "span_end (?ts ! i) \<le> span_start (?ts ! j)
         \<and> {span_start (?ts ! i) ..< span_end (?ts ! i)}
           \<inter> {span_start (?ts ! j) ..< span_end (?ts ! j)} = {}"
      by (auto simp: follows_def)
  qed
  have t: "\<forall>x\<in>set ?ts. speech x = strip (clean_extraneous (strip
           (slice (replace_nbsp (strip_note_blocks raw)) (span_start x) (span_end x))))"
    unfolding scrape_turns_def Let_def using assemble_close_turn by blast
  have e: "scrape raw = map (\<lambda>x. (speaker x, speech x)) ?ts" by (simp add: scrape_def)
  show ?thesis using s d t e by blast
qed

lemma gap_example_length: "length gap_example = 57"
  by code_simp

lemma gap_example_prepared: "replace_nbsp (strip_note_blocks gap_example) = gap_example"
  by code_simp

lemma gap_example_events:
  "sorted_events gap_example = [(Speaker, 0, 12), (End, 20, 25), (Speaker, 37, 49)]"
  by code_simp

lemma gap_example_label1: "speaker_label gap_example 0 12 = ''Mr. SMITH''"
  by code_simp

lemma gap_example_label2: "speaker_label gap_example 37 49 = ''Mr. JONES''"
  by code_simp

lemma gap_example_turn1:
  "close_turn gap_example ''Mr. SMITH'' 12 20 =
     \<lparr> speaker = ''Mr. SMITH'', span_start = 12, span_end = 20, speech = ''Hello.'' \<rparr>"
  by code_simp

lemma gap_example_turn2:
  "close_turn gap_example ''Mr. JONES'' 49 57 =
     \<lparr> speaker = ''Mr. JONES'', span_start = 49, span_end = 57, speech = ''Reply.'' \<rparr>"
  by code_simp

lemma gap_example_turns:
  "scrape_turns gap_example =
     [\<lparr> speaker = ''Mr. SMITH'', span_start = 12, span_end = 20, speech = ''Hello.'' \<rparr>,
      \<lparr> speaker = ''Mr. JONES'', span_start = 49, span_end = 57, speech = ''Reply.'' \<rparr>]"
  unfolding scrape_turns_def Let_def gap_example_prepared gap_example_events
  by (simp add: gap_example_label1 gap_example_label2 gap_example_turn1 gap_example_turn2
      gap_example_length)

theorem turns_sorted_and_disjoint_witness:
  "scrape_turns gap_example =
     [\<lparr> speaker = ''Mr. SMITH'', span_start = 12, span_end = 20, speech = ''Hello.'' \<rparr>,
      \<lparr> speaker = ''Mr. JONES'', span_start = 49, span_end = 57, speech = ''Reply.'' \<rparr>]
   \<and> sorted (map span_start (scrape_turns gap_example))
   \<and> span_end (scrape_turns gap_example ! 0) \<le> span_start (scrape_turns gap_example ! 1)
   \<and> {span_start (scrape_turns gap_example ! 0) ..< span_end (scrape_turns gap_example ! 0)}
       \<inter> {span_start (scrape_turns gap_example ! 1) ..< span_end (scrape_turns gap_example ! 1)} = {}
   \<and> speech (scrape_turns gap_example ! 0) = strip (clean_extraneous (strip
         (slice (replace_nbsp (strip_note_blocks gap_example)) 12 20)))
   \<and> slice (replace_nbsp (strip_note_blocks gap_example)) 20 49
       = ''_____'' @ [LF] @ ''stray text'' @ [LF] @ ''  Mr. JONES.''"
proof -
  note u = turns_sorted_and_disjoint[of gap_example]
  have l: "(0::nat) < 1 \<and> 1 < length (scrape_turns gap_example)"
    by (simp add: gap_example_turns)
  have a: "sorted (map span_start (scrape_turns gap_example))" using u by blast
  have b: "span_end (scrape_turns gap_example ! 0) \<le> span_start (scrape_turns gap_example ! 1)
      \<and> {span_start (scrape_turns gap_example ! 0) ..< span_end (scrape_turns gap_example ! 0)}
       \<inter> {span_start (scrape_turns gap_example ! 1) ..< span_end (scrape_turns gap_example ! 1)} = {}"
    using u[THEN conjunct2, THEN conjunct1, rule_format, OF l] .
  have m: "scrape_turns gap_example ! 0 \<in> set (scrape_turns gap_example)"
    by (simp add: gap_example_turns)
  have c: "speech (scrape_turns gap_example ! 0) = strip (clean_extraneous (strip
         (slice (replace_nbsp (strip_note_blocks gap_example))
            (span_start (scrape_turns gap_example ! 0)) (span_end (scrape_turns gap_example ! 0)))))"
    using u[THEN conjunct2, THEN conjunct2, THEN conjunct1, rule_format, OF m] .
  have c': "speech (scrape_turns gap_example ! 0) = strip (clean_extraneous (strip
         (slice (replace_nbsp (strip_note_blocks gap_example)) 12 20)))"
    using c by (simp add: gap_example_turns)
  have d: "slice (replace_nbsp (strip_note_blocks gap_example)) 20 49
       = ''_____'' @ [LF] @ ''stray text'' @ [LF] @ ''  Mr. JONES.''"
    by code_simp
  show ?thesis using gap_example_turns a b c' d by blast
qed

subsection \<open>The NOTE blocks\<close>

lemma strip_lines_append:
  "strip_lines skip (xs @ ys) =
     strip_lines skip xs @ strip_lines (skip \<noteq> odd (length (filter is_marker xs))) ys"
  by (induction xs arbitrary: skip) auto

lemma strip_lines_skip_all:
  "\<forall>l\<in>set ys. \<not> is_marker l \<Longrightarrow> strip_lines True ys = []"
  by (induction ys) auto

lemma strip_lines_keep_all:
  "\<forall>l\<in>set ys. \<not> is_marker l \<Longrightarrow> strip_lines False ys = ys"
  by (induction ys) auto

lemma strip_lines_last_marker:
  "is_marker m \<Longrightarrow> strip_lines skip (pre @ [m]) = strip_lines skip pre @ [m]"
  by (simp add: strip_lines_append)

lemma unpaired_marker_drops_rest:
  assumes "is_marker m" "\<forall>l\<in>set post. \<not> is_marker l"
    "odd (length (filter is_marker (pre @ m # post)))"
  shows "strip_lines False (pre @ m # post) = strip_lines False pre @ [m]"
proof -
  have "filter is_marker post = []" using assms(2) by (simp add: filter_empty_conv)
  then have o: "odd (length (filter is_marker (pre @ [m])))" using assms(1,3) by simp
  have "strip_lines False (pre @ m # post) = strip_lines False ((pre @ [m]) @ post)" by simp
  also have "\<dots> = strip_lines False (pre @ [m]) @ strip_lines True post"
    unfolding strip_lines_append[of False "pre @ [m]" post] using o by simp
  also have "\<dots> = strip_lines False pre @ [m]"
    using assms(1,2) by (simp add: strip_lines_skip_all strip_lines_last_marker)
  finally show ?thesis .
qed

text \<open>
  C10. When the number of marker lines is odd, the stripping step keeps nothing after the
  last marker line: the stripped text ends with that marker line, and two transcripts that
  differ only after it are stripped to the same text and give the same turns.
\<close>

theorem unpaired_marker_discards_rest:
  assumes lines: "splitlines_keepends raw = pre @ m # post"
    and lines': "splitlines_keepends raw' = pre @ m # post'"
    and m: "is_marker m"
    and post: "\<forall>l\<in>set post. \<not> is_marker l"
    and post': "\<forall>l\<in>set post'. \<not> is_marker l"
    and odd: "odd (length (filter is_marker (splitlines_keepends raw)))"
  shows "strip_lines False (splitlines_keepends raw) = strip_lines False pre @ [m]
    \<and> strip_note_blocks raw = concat (strip_lines False pre) @ m
    \<and> strip_note_blocks raw' = strip_note_blocks raw
    \<and> scrape_turns raw' = scrape_turns raw
    \<and> scrape raw' = scrape raw"
proof -
  have f: "filter is_marker post = []" "filter is_marker post' = []"
    using post post' by (simp_all add: filter_empty_conv)
  have o: "odd (length (filter is_marker (pre @ m # post)))" using odd lines by simp
  then have o': "odd (length (filter is_marker (pre @ m # post')))" using f by simp
  have a: "strip_lines False (splitlines_keepends raw) = strip_lines False pre @ [m]"
    unfolding lines by (rule unpaired_marker_drops_rest[OF m post o])
  have a': "strip_lines False (splitlines_keepends raw') = strip_lines False pre @ [m]"
    unfolding lines' by (rule unpaired_marker_drops_rest[OF m post' o'])
  have b: "strip_note_blocks raw' = strip_note_blocks raw"
    by (simp add: strip_note_blocks_def a a')
  show ?thesis using a b by (simp add: strip_note_blocks_def scrape_turns_def scrape_def)
qed

lemma note_example_lines:
  "splitlines_keepends note_example
     = [''  Mr. SMITH. Hello.'' @ [LF]] @ (''====='' @ [LF]) # [''  Mr. JONES. Lost.'' @ [LF]]"
  by code_simp

lemma note_example'_lines:
  "splitlines_keepends note_example'
     = [''  Mr. SMITH. Hello.'' @ [LF]] @ (''====='' @ [LF]) # [''  Mr. BROWN. Also lost.'']"
  by code_simp

lemma note_example_marker: "is_marker (''====='' @ [LF])"
  by code_simp

lemma note_example_others:
  "\<not> is_marker (''  Mr. SMITH. Hello.'' @ [LF])"
  "\<not> is_marker (''  Mr. JONES. Lost.'' @ [LF])"
  "\<not> is_marker ''  Mr. BROWN. Also lost.''"
  by code_simp+

lemma note_example_prepared: "replace_nbsp (strip_note_blocks note_example) = note_example_kept"
  by code_simp

lemma note_example_events: "sorted_events note_example_kept = [(Speaker, 0, 12), (End, 20, 25)]"
  by code_simp

lemma note_example_label: "speaker_label note_example_kept 0 12 = ''Mr. SMITH''"
  by code_simp

lemma note_example_turn:
  "close_turn note_example_kept ''Mr. SMITH'' 12 20 =
     \<lparr> speaker = ''Mr. SMITH'', span_start = 12, span_end = 20, speech = ''Hello.'' \<rparr>"
  by code_simp

lemma note_example_scrape: "scrape note_example = [(''Mr. SMITH'', ''Hello.'')]"
  unfolding scrape_def scrape_turns_def Let_def note_example_prepared note_example_events
  by (simp add: note_example_label note_example_turn)

theorem unpaired_marker_discards_rest_witness:
  "splitlines_keepends note_example
     = [''  Mr. SMITH. Hello.'' @ [LF]] @ (''====='' @ [LF]) # [''  Mr. JONES. Lost.'' @ [LF]]
   \<and> is_marker (''====='' @ [LF])
   \<and> odd (length (filter is_marker (splitlines_keepends note_example)))
   \<and> strip_note_blocks note_example = ''  Mr. SMITH. Hello.'' @ [LF] @ ''====='' @ [LF]
   \<and> scrape note_example' = scrape note_example
   \<and> scrape note_example = [(''Mr. SMITH'', ''Hello.'')]"
proof -
  have p: "\<forall>l\<in>set [''  Mr. JONES. Lost.'' @ [LF]]. \<not> is_marker l"
    using note_example_others by simp
  have p': "\<forall>l\<in>set [''  Mr. BROWN. Also lost.'']. \<not> is_marker l"
    using note_example_others by simp
  have o: "odd (length (filter is_marker (splitlines_keepends note_example)))"
    unfolding note_example_lines using note_example_marker note_example_others by simp
  have s: "strip_lines False [''  Mr. SMITH. Hello.'' @ [LF]] = [''  Mr. SMITH. Hello.'' @ [LF]]"
    using note_example_others by simp
  note u = unpaired_marker_discards_rest[OF note_example_lines note_example'_lines note_example_marker p p' o]
  have a: "strip_note_blocks note_example = ''  Mr. SMITH. Hello.'' @ [LF] @ ''====='' @ [LF]"
    using u[THEN conjunct2, THEN conjunct1] unfolding s by simp
  have b: "scrape note_example' = scrape note_example"
    using u by blast
  show ?thesis
    using note_example_lines note_example_marker o a b note_example_scrape by blast
qed

subsection \<open>Matches of the pattern constructors\<close>

lemma rm_Sym_iff: "j \<in> set (rm (Sym P) t i) \<longleftrightarrow> j = Suc i \<and> i < length t \<and> P (t ! i)"
  by auto

lemma rm_chr_iff: "j \<in> set (rm (chr c) t i) \<longleftrightarrow> j = Suc i \<and> i < length t \<and> t ! i = c"
  by (auto simp: chr_def)

lemma rm_Seq_iff: "j \<in> set (rm (Seq a b) t i) \<longleftrightarrow> (\<exists>q\<in>set (rm a t i). j \<in> set (rm b t q))"
  by auto

lemma rm_Alt_iff: "j \<in> set (rm (Alt a b) t i) \<longleftrightarrow> j \<in> set (rm a t i) \<or> j \<in> set (rm b t i)"
  by auto

lemma rm_seq_Nil: "j \<in> set (rm (seq []) t i) \<longleftrightarrow> j = i"
  by (auto simp: seq_def)

lemma rm_seq_Cons:
  "j \<in> set (rm (seq (r # rs)) t i) \<longleftrightarrow> (\<exists>q\<in>set (rm r t i). j \<in> set (rm (seq rs) t q))"
  by (auto simp: seq_def)

lemma rm_seq_single: "j \<in> set (rm (seq [r]) t i) \<longleftrightarrow> j \<in> set (rm r t i)"
  by (auto simp: seq_def)

lemma rm_alts_iff: "j \<in> set (rm (alts rs) t i) \<longleftrightarrow> (\<exists>r\<in>set rs. j \<in> set (rm r t i))"
  by (induction rs rule: alts.induct) auto

lemma rm_seq_last:
  assumes "rs \<noteq> []" "j \<in> set (rm (seq rs) t i)"
  shows "\<exists>q. j \<in> set (rm (last rs) t q)"
  using assms
proof (induction rs arbitrary: i)
  case Nil
  then show ?case by simp
next
  case (Cons r rs)
  from Cons.prems(2) obtain q where q: "q \<in> set (rm r t i)" "j \<in> set (rm (seq rs) t q)"
    unfolding rm_seq_Cons by blast
  show ?case
  proof (cases "rs = []")
    case True
    then have "j = q" using q(2) by (simp add: rm_seq_Nil)
    then show ?thesis using q(1) True by auto
  next
    case False
    then show ?thesis using Cons.IH[OF False q(2)] by simp
  qed
qed

lemma slice_Suc: "i < length t \<Longrightarrow> slice t i (Suc i) = [t ! i]"
  by (simp add: slice_def take_Suc_conv_app_nth Cons_nth_drop_Suc[symmetric])

lemma slice_append: "a \<le> b \<Longrightarrow> b \<le> c \<Longrightarrow> slice t a c = slice t a b @ slice t b c"
proof -
  assume ab: "a \<le> b" and bc: "b \<le> c"
  have "take (c - a) (drop a t) = take (b - a) (drop a t) @ take (c - b) (drop (b - a) (drop a t))"
    using take_add[of "b - a" "c - b" "drop a t"] ab bc by simp
  then show ?thesis using ab by (simp add: slice_def)
qed

lemma slice_self: "slice t a a = []"
  by (simp add: slice_def)

lemma rm_lit:
  "j \<in> set (rm (lit s) t i) \<Longrightarrow> i \<le> length t \<Longrightarrow>
     j = i + length s \<and> slice t i j = s \<and> j \<le> length t"
proof (induction s arbitrary: i)
  case Nil
  then show ?case by (simp add: lit_def rm_seq_Nil slice_self)
next
  case (Cons c s)
  from Cons.prems obtain q where q: "q \<in> set (rm (chr c) t i)" "j \<in> set (rm (lit s) t q)"
    unfolding lit_def list.map rm_seq_Cons by blast
  have q1: "q = Suc i" "i < length t" "t ! i = c" using q(1) by (simp_all add: rm_chr_iff)
  have ql: "q \<le> length t" using q1 by simp
  note ih0 = Cons.IH[OF q(2) ql]
  have ih: "j = q + length s" "slice t q j = s" "j \<le> length t"
    using ih0 by blast+
  have "slice t i j = slice t i q @ slice t q j"
    using q1 ih by (intro slice_append) simp_all
  then show ?case using q1 ih by (simp add: slice_Suc)
qed

lemma rm_opt_iff:
  "j \<in> set (rm (opt r) t i) \<longleftrightarrow> j = i \<or> (j \<in> set (rm r t i) \<and> i < j \<and> j \<le> length t)"
proof -
  have z: "\<And>q. j \<in> set (rm (Rep r 0 (Some 0)) t q) \<longleftrightarrow> j = q"
    by (subst rm_Rep_iff) simp
  show ?thesis unfolding opt_def
    by (subst rm_Rep_iff) (auto simp: z)
qed

subsection \<open>Speaker events\<close>

lemma honorific_match:
  assumes "q' \<in> set (rm HONORIFIC t q)" "q \<le> length t"
  shows "slice t q q' \<in> set HONORIFIC_TOKENS \<and> q' \<le> length t"
proof -
  from assms(1) consider
      (m) "q' \<in> set (rm (seq [chr (CHR ''M''), alts [lit ''r'', lit ''rs'', lit ''s''], chr (CHR ''.'')]) t q)"
    | (l) s where "s \<in> set [''Miss'', ''Chairman'', ''Chairwoman'', ''HON.'', ''Dr.'']"
        "q' \<in> set (rm (lit s) t q)"
    unfolding HONORIFIC_def rm_alts_iff by auto
  then show ?thesis
  proof cases
    case m
    then obtain a b where a: "a \<in> set (rm (chr (CHR ''M'')) t q)"
      and b: "b \<in> set (rm (alts [lit ''r'', lit ''rs'', lit ''s'']) t a)"
      and c: "q' \<in> set (rm (chr (CHR ''.'')) t b)"
      unfolding rm_seq_Cons rm_seq_Nil by auto
    have a': "a = Suc q" "q < length t" "t ! q = CHR ''M''" using a by (simp_all add: rm_chr_iff)
    have al: "a \<le> length t" using a' by simp
    from b obtain s where s: "s \<in> set [''r'', ''rs'', ''s'']" "b \<in> set (rm (lit s) t a)"
      unfolding rm_alts_iff by auto
    note bl = rm_lit[OF s(2) al]
    have c': "q' = Suc b" "b < length t" "t ! b = CHR ''.''" using c by (simp_all add: rm_chr_iff)
    have le: "q \<le> a" "a \<le> b" "b \<le> q'" "a \<le> q'" using a' bl c' by simp_all
    have p1: "slice t q a = [CHR ''M'']" using a' slice_Suc[of q t] by simp
    have p2: "slice t a b = s" using bl by blast
    have p3: "slice t b q' = ''.''" using c' slice_Suc[of b t] by simp
    have "slice t q q' = slice t q a @ slice t a b @ slice t b q'"
      using slice_append[OF le(1) le(4), of t] slice_append[OF le(2) le(3), of t] by simp
    then have "slice t q q' = CHR ''M'' # s @ ''.''"
      unfolding p1 p2 p3 by simp
    moreover have "q' \<le> length t" using c' by simp
    ultimately show ?thesis using s(1) by (auto simp: HONORIFIC_TOKENS_def)
  next
    case l
    note ll = rm_lit[OF l(2) assms(2)]
    have "slice t q q' = s" "q' \<le> length t" using ll by blast+
    then show ?thesis using l(1) by (auto simp: HONORIFIC_TOKENS_def)
  qed
qed

lemma last_dot:
  assumes "e \<in> set (rm (seq rs) t q)" "rs \<noteq> []" "last rs = chr (CHR ''.'')"
  shows "0 < e \<and> e \<le> length t \<and> t ! (e - 1) = CHR ''.''"
proof -
  obtain p where "e \<in> set (rm (chr (CHR ''.'')) t p)"
    using rm_seq_last[OF assms(2) assms(1)] assms(3) by auto
  then show ?thesis by (auto simp: rm_chr_iff)
qed

lemma named_speaker_match:
  assumes "e \<in> set (rm NAMED_SPEAKER t q)" "q \<le> length t"
  shows "(\<exists>q'. q' < e \<and> slice t q q' \<in> set HONORIFIC_TOKENS \<and> is_space (t ! q'))
     \<and> 0 < e \<and> e \<le> length t \<and> t ! (e - 1) = CHR ''.''"
proof -
  from assms(1) obtain q' b rest where q': "q' \<in> set (rm HONORIFIC t q)"
    "b \<in> set (rm ws t q')" "e \<in> set (rm rest t b)"
    unfolding NAMED_SPEAKER_def rm_seq_Cons[of e HONORIFIC] rm_seq_Cons[of e ws] by blast
  have b: "b = Suc q'" "is_space (t ! q')" using q'(2) unfolding ws_def rm_Sym_iff by blast+
  have "b \<le> e" using q'(3) by (rule rm_ge)
  then have "q' < e" using b by simp
  moreover have "slice t q q' \<in> set HONORIFIC_TOKENS" using honorific_match[OF q'(1) assms(2)] by simp
  moreover have "0 < e \<and> e \<le> length t \<and> t ! (e - 1) = CHR ''.''"
    using assms(1) unfolding NAMED_SPEAKER_def by (rule last_dot) simp_all
  ultimately show ?thesis using b(2) by blast
qed

lemma spells_lit: "spells (lit w) {map space_of w}"
  unfolding spells_def
proof (intro allI impI)
  fix t i j
  assume i: "i \<le> length t" and j: "j \<in> set (rm (lit w) t i)"
  note l = rm_lit[OF j i]
  have "j = i + length w" "slice t i j = w" "j \<le> length t" using l by blast+
  then show "i \<le> j \<and> j \<le> length t \<and> map space_of (slice t i j) \<in> {map space_of w}"
    by simp
qed

lemma spells_ws: "spells ws {'' ''}"
  unfolding spells_def
proof (intro allI impI)
  fix t i j
  assume i: "i \<le> length t" and j: "j \<in> set (rm ws t i)"
  have a: "j = Suc i" "i < length t" "is_space (t ! i)"
    using j unfolding ws_def rm_Sym_iff by blast+
  have "slice t i j = [t ! i]" using a slice_Suc[of i t] by simp
  then have "map space_of (slice t i j) = '' ''" using a(3) by (simp add: space_of_def)
  then show "i \<le> j \<and> j \<le> length t \<and> map space_of (slice t i j) \<in> {'' ''}"
    using a by simp
qed

lemma spells_seq_Nil: "spells (seq []) {[]}"
  unfolding spells_def rm_seq_Nil by (simp add: slice_self)

lemma spells_seq_Cons:
  assumes "spells r A" "spells (seq rs) B"
  shows "spells (seq (r # rs)) {x @ y | x y. x \<in> A \<and> y \<in> B}"
  unfolding spells_def
proof (intro allI impI)
  fix t i j
  assume i: "i \<le> length t" and j: "j \<in> set (rm (seq (r # rs)) t i)"
  from j obtain q where q: "q \<in> set (rm r t i)" "j \<in> set (rm (seq rs) t q)"
    unfolding rm_seq_Cons by blast
  have a: "i \<le> q" "q \<le> length t" "map space_of (slice t i q) \<in> A"
    using assms(1) i q(1) unfolding spells_def by blast+
  have b: "q \<le> j" "j \<le> length t" "map space_of (slice t q j) \<in> B"
    using assms(2) a(2) q(2) unfolding spells_def by blast+
  have "slice t i j = slice t i q @ slice t q j" using a(1) b(1) by (rule slice_append)
  then have "map space_of (slice t i j) = map space_of (slice t i q) @ map space_of (slice t q j)"
    by simp
  then show "i \<le> j \<and> j \<le> length t \<and> map space_of (slice t i j) \<in> {x @ y | x y. x \<in> A \<and> y \<in> B}"
    using a b by auto
qed

lemma spells_opt:
  assumes "spells r A"
  shows "spells (opt r) (insert [] A)"
  unfolding spells_def
proof (intro allI impI)
  fix t i j
  assume i: "i \<le> length t" and j: "j \<in> set (rm (opt r) t i)"
  from j have "j = i \<or> j \<in> set (rm r t i)" unfolding rm_opt_iff by blast
  then show "i \<le> j \<and> j \<le> length t \<and> map space_of (slice t i j) \<in> insert [] A"
  proof
    assume "j = i"
    then show ?thesis using i by (simp add: slice_self)
  next
    assume "j \<in> set (rm r t i)"
    then have "i \<le> j \<and> j \<le> length t \<and> map space_of (slice t i j) \<in> A"
      using assms i unfolding spells_def by blast
    then show ?thesis by blast
  qed
qed

lemma spells_alts:
  assumes "\<forall>r\<in>set rs. \<exists>A. A \<subseteq> B \<and> spells r A"
  shows "spells (alts rs) B"
  unfolding spells_def rm_alts_iff
proof (intro allI impI)
  fix t i j
  assume i: "i \<le> length t" and "\<exists>r\<in>set rs. j \<in> set (rm r t i)"
  then obtain r where r: "r \<in> set rs" "j \<in> set (rm r t i)" by blast
  then obtain A where A: "A \<subseteq> B" "spells r A" using assms by blast
  show "i \<le> j \<and> j \<le> length t \<and> map space_of (slice t i j) \<in> B"
    using A i r(2) unfolding spells_def by blast
qed

lemma spells_mono: "spells r A \<Longrightarrow> A \<subseteq> B \<Longrightarrow> spells r B"
  unfolding spells_def by blast

lemma sp_lit: "map space_of w = w \<Longrightarrow> spells (lit w) {w}"
  using spells_lit[of w] by simp

lemma sp_cat: "spells r {a} \<Longrightarrow> spells (seq rs) {b} \<Longrightarrow> spells (seq (r # rs)) {a @ b}"
proof -
  assume a: "spells r {a}" and b: "spells (seq rs) {b}"
  have e: "{x @ y | x y. x \<in> {a} \<and> y \<in> {b}} = {a @ b}" by auto
  show ?thesis using spells_seq_Cons[OF a b] unfolding e .
qed


lemma sp_last: "spells r A \<Longrightarrow> spells (seq [r]) A"
  unfolding spells_def rm_seq_single .

lemma sp_alts: "\<forall>r\<in>set rs. spells r B \<Longrightarrow> spells (alts rs) B"
  by (rule spells_alts) blast

lemma sp_words2:
  assumes "map space_of a = a" "map space_of b = b"
  shows "spells (seq [lit a, ws, lit b]) {a @ '' '' @ b}"
proof -
  have "spells (seq [lit a, ws, lit b]) {a @ '' '' @ b @ []}"
    using assms by (intro sp_cat spells_ws sp_lit spells_seq_Nil)
  then show ?thesis by simp
qed

lemma sp_words3:
  assumes "map space_of a = a" "map space_of b = b" "map space_of c = c"
  shows "spells (seq [lit a, ws, lit b, ws, lit c]) {a @ '' '' @ b @ '' '' @ c}"
proof -
  have "spells (seq [lit a, ws, lit b, ws, lit c]) {a @ '' '' @ b @ '' '' @ c @ []}"
    using assms by (intro sp_cat spells_ws sp_lit spells_seq_Nil)
  then show ?thesis by simp
qed

lemma sp_words4:
  assumes "map space_of a = a" "map space_of b = b" "map space_of c = c" "map space_of d = d"
  shows "spells (seq [lit a, ws, lit b, ws, lit c, ws, lit d]) {a @ '' '' @ b @ '' '' @ c @ '' '' @ d}"
proof -
  have "spells (seq [lit a, ws, lit b, ws, lit c, ws, lit d])
      {a @ '' '' @ b @ '' '' @ c @ '' '' @ d @ []}"
    using assms by (intro sp_cat spells_ws sp_lit spells_seq_Nil)
  then show ?thesis by simp
qed

lemma sp_pro_tempore:
  assumes "map space_of a = a"
  shows "spells (seq [lit a, opt (seq [ws, lit ''pro'', ws, lit ''tempore''])])
     {a, a @ '' pro tempore''}"
proof -
  have "spells (seq [ws, lit ''pro'', ws, lit ''tempore'']) {'' '' @ ''pro'' @ '' '' @ ''tempore'' @ []}"
    by (intro sp_cat spells_ws sp_lit spells_seq_Nil) (simp_all add: space_of_def is_space_def)
  then have "spells (seq [ws, lit ''pro'', ws, lit ''tempore'']) {'' pro tempore''}" by simp
  then have o: "spells (seq [opt (seq [ws, lit ''pro'', ws, lit ''tempore''])]) {[], '' pro tempore''}"
    by (intro sp_last spells_opt)
  have e: "{x @ y | x y. x \<in> {a} \<and> y \<in> {[], '' pro tempore''}} = {a, a @ '' pro tempore''}"
    by auto
  show ?thesis using spells_seq_Cons[OF sp_lit[OF assms] o] unfolding e .
qed

lemma space_of_id: "\<forall>c\<in>set w. \<not> is_space c \<Longrightarrow> map space_of w = w"
  by (induction w) (simp_all add: space_of_def)

lemma role_phrase_spells:
  "spells (seq [lit ''The'', ws,
      alts [lit ''CLERK'',
            seq [lit ''Acting'', ws, lit ''CHAIR''],
            seq [lit ''ACTING'', ws, lit ''CHAIR''],
            lit ''CHAIR'',
            seq [lit ''CHAIRMAN'', opt (seq [ws, lit ''pro'', ws, lit ''tempore''])],
            seq [lit ''PRESIDING'', ws, lit ''OFFICER''],
            seq [lit ''SPEAKER'', opt (seq [ws, lit ''pro'', ws, lit ''tempore''])],
            seq [lit ''VICE'', ws, lit ''PRESIDENT''],
            seq [lit ''PRESIDENT'', ws, lit ''pro'', ws, lit ''tempore''],
            seq [lit ''ACTING'', ws, lit ''PRESIDENT'', ws, lit ''pro'', ws, lit ''tempore''],
            seq [lit ''CHIEF'', ws, lit ''JUSTICE'']]])
     (set ROLE_TOKENS)"
proof -
  define B where "B = {''CLERK'', ''Acting CHAIR'', ''ACTING CHAIR'', ''CHAIR'',
     ''CHAIRMAN'', ''CHAIRMAN pro tempore'', ''PRESIDING OFFICER'',
     ''SPEAKER'', ''SPEAKER pro tempore'', ''VICE PRESIDENT'',
     ''PRESIDENT pro tempore'', ''ACTING PRESIDENT pro tempore'', ''CHIEF JUSTICE''}"
  have id: "\<And>w. \<forall>c\<in>set w. \<not> is_space c \<Longrightarrow> map space_of w = w" by (rule space_of_id)
  have 1: "spells (lit ''CLERK'') B"
    by (rule spells_mono[OF sp_lit]) (simp_all add: B_def space_of_def is_space_def)
  have 2: "spells (seq [lit ''Acting'', ws, lit ''CHAIR'']) B"
    by (rule spells_mono[OF sp_words2]) (simp_all add: B_def space_of_def is_space_def)
  have 3: "spells (seq [lit ''ACTING'', ws, lit ''CHAIR'']) B"
    by (rule spells_mono[OF sp_words2]) (simp_all add: B_def space_of_def is_space_def)
  have 4: "spells (lit ''CHAIR'') B"
    by (rule spells_mono[OF sp_lit]) (simp_all add: B_def space_of_def is_space_def)
  have 5: "spells (seq [lit ''CHAIRMAN'', opt (seq [ws, lit ''pro'', ws, lit ''tempore''])]) B"
    by (rule spells_mono[OF sp_pro_tempore]) (simp_all add: B_def space_of_def is_space_def)
  have 6: "spells (seq [lit ''PRESIDING'', ws, lit ''OFFICER'']) B"
    by (rule spells_mono[OF sp_words2]) (simp_all add: B_def space_of_def is_space_def)
  have 7: "spells (seq [lit ''SPEAKER'', opt (seq [ws, lit ''pro'', ws, lit ''tempore''])]) B"
    by (rule spells_mono[OF sp_pro_tempore]) (simp_all add: B_def space_of_def is_space_def)
  have 8: "spells (seq [lit ''VICE'', ws, lit ''PRESIDENT'']) B"
    by (rule spells_mono[OF sp_words2]) (simp_all add: B_def space_of_def is_space_def)
  have 9: "spells (seq [lit ''PRESIDENT'', ws, lit ''pro'', ws, lit ''tempore'']) B"
    by (rule spells_mono[OF sp_words3]) (simp_all add: B_def space_of_def is_space_def)
  have 10: "spells (seq [lit ''ACTING'', ws, lit ''PRESIDENT'', ws, lit ''pro'', ws, lit ''tempore'']) B"
    by (rule spells_mono[OF sp_words4]) (simp_all add: B_def space_of_def is_space_def)
  have 11: "spells (seq [lit ''CHIEF'', ws, lit ''JUSTICE'']) B"
    by (rule spells_mono[OF sp_words2]) (simp_all add: B_def space_of_def is_space_def)
  let ?A = "alts [lit ''CLERK'',
            seq [lit ''Acting'', ws, lit ''CHAIR''],
            seq [lit ''ACTING'', ws, lit ''CHAIR''],
            lit ''CHAIR'',
            seq [lit ''CHAIRMAN'', opt (seq [ws, lit ''pro'', ws, lit ''tempore''])],
            seq [lit ''PRESIDING'', ws, lit ''OFFICER''],
            seq [lit ''SPEAKER'', opt (seq [ws, lit ''pro'', ws, lit ''tempore''])],
            seq [lit ''VICE'', ws, lit ''PRESIDENT''],
            seq [lit ''PRESIDENT'', ws, lit ''pro'', ws, lit ''tempore''],
            seq [lit ''ACTING'', ws, lit ''PRESIDENT'', ws, lit ''pro'', ws, lit ''tempore''],
            seq [lit ''CHIEF'', ws, lit ''JUSTICE'']]"
  have a: "spells (seq [?A]) B"
    using 1 2 3 4 5 6 7 8 9 10 11 by (intro sp_last sp_alts) simp
  have w: "spells (seq [ws, ?A]) {x @ y | x y. x \<in> {'' ''} \<and> y \<in> B}"
    using spells_ws a by (rule spells_seq_Cons)
  have t: "spells (lit ''The'') {''The''}"
    by (rule sp_lit) (simp add: space_of_def is_space_def)
  have "spells (seq [lit ''The'', ws, ?A])
     {x @ y | x y. x \<in> {''The''} \<and> y \<in> {x @ y | x y. x \<in> {'' ''} \<and> y \<in> B}}"
    using t w by (rule spells_seq_Cons)
  moreover have "{x @ y | x y. x \<in> {''The''} \<and> y \<in> {x @ y | x y. x \<in> {'' ''} \<and> y \<in> B}}
     \<subseteq> set ROLE_TOKENS"
    unfolding B_def ROLE_TOKENS_def by auto
  ultimately show ?thesis by (rule spells_mono)
qed

lemma role_speaker_match:
  assumes "e \<in> set (rm ROLE_SPEAKER t q)" "q \<le> length t"
  shows "(\<exists>q'. q' \<le> e \<and> map space_of (slice t q q') \<in> set ROLE_TOKENS
            \<and> e \<in> set (rm (seq [paren_aside, chr (CHR ''.'')]) t q'))
     \<and> 0 < e \<and> e \<le> length t \<and> t ! (e - 1) = CHR ''.''"
proof -
  from assms(1) obtain a b q' where q': "a \<in> set (rm (lit ''The'') t q)" "b \<in> set (rm ws t a)"
    "q' \<in> set (rm (alts [lit ''CLERK'',
            seq [lit ''Acting'', ws, lit ''CHAIR''],
            seq [lit ''ACTING'', ws, lit ''CHAIR''],
            lit ''CHAIR'',
            seq [lit ''CHAIRMAN'', opt (seq [ws, lit ''pro'', ws, lit ''tempore''])],
            seq [lit ''PRESIDING'', ws, lit ''OFFICER''],
            seq [lit ''SPEAKER'', opt (seq [ws, lit ''pro'', ws, lit ''tempore''])],
            seq [lit ''VICE'', ws, lit ''PRESIDENT''],
            seq [lit ''PRESIDENT'', ws, lit ''pro'', ws, lit ''tempore''],
            seq [lit ''ACTING'', ws, lit ''PRESIDENT'', ws, lit ''pro'', ws, lit ''tempore''],
            seq [lit ''CHIEF'', ws, lit ''JUSTICE'']]) t b)"
    "e \<in> set (rm (seq [paren_aside, chr (CHR ''.'')]) t q')"
    unfolding ROLE_SPEAKER_def rm_seq_Cons[of e "lit ''The''"] rm_seq_Cons[of e ws]
      rm_seq_Cons[of e "alts _"] by blast
  have h: "q' \<in> set (rm (seq [lit ''The'', ws,
      alts [lit ''CLERK'',
            seq [lit ''Acting'', ws, lit ''CHAIR''],
            seq [lit ''ACTING'', ws, lit ''CHAIR''],
            lit ''CHAIR'',
            seq [lit ''CHAIRMAN'', opt (seq [ws, lit ''pro'', ws, lit ''tempore''])],
            seq [lit ''PRESIDING'', ws, lit ''OFFICER''],
            seq [lit ''SPEAKER'', opt (seq [ws, lit ''pro'', ws, lit ''tempore''])],
            seq [lit ''VICE'', ws, lit ''PRESIDENT''],
            seq [lit ''PRESIDENT'', ws, lit ''pro'', ws, lit ''tempore''],
            seq [lit ''ACTING'', ws, lit ''PRESIDENT'', ws, lit ''pro'', ws, lit ''tempore''],
            seq [lit ''CHIEF'', ws, lit ''JUSTICE'']]]) t q)"
    unfolding rm_seq_Cons[of q' "lit ''The''"] rm_seq_Cons[of q' ws] rm_seq_single
    using q'(1,2,3) by blast
  have "map space_of (slice t q q') \<in> set ROLE_TOKENS"
    using role_phrase_spells assms(2) h unfolding spells_def by blast
  moreover have "q' \<le> e" using q'(4) by (rule rm_ge)
  moreover have "0 < e \<and> e \<le> length t \<and> t ! (e - 1) = CHR ''.''"
    using assms(1) unfolding ROLE_SPEAKER_def by (rule last_dot) simp_all
  ultimately show ?thesis using q'(4) by blast
qed


lemma leading_space_match:
  assumes "q \<in> set (rm (Rep ws 1 (Some 2)) t s)"
  shows "s < length t \<and> is_space (t ! s) \<and>
     (q = Suc s \<or> (q = Suc (Suc s) \<and> Suc s < length t \<and> is_space (t ! Suc s)))"
  using assms
proof (cases rule: rm_Rep_cases)
  case 1
  then show ?thesis by simp
next
  case (2 a)
  have a: "a = Suc s" "s < length t" "is_space (t ! s)"
    using 2(2) by (simp_all add: ws_def rm_Sym_iff)
  from 2(5) have "q \<in> set (rm (Rep ws 0 (Some 1)) t a)" by simp
  then show ?thesis
  proof (cases rule: rm_Rep_cases)
    case 1
    then show ?thesis using a by simp
  next
    case (2 b)
    have b: "b = Suc a" "a < length t" "is_space (t ! a)"
      using 2(2) by (simp_all add: ws_def rm_Sym_iff)
    from 2(5) have "q \<in> set (rm (Rep ws 0 (Some 0)) t b)" by simp
    then have "q = b" by (cases rule: rm_Rep_cases) simp_all
    then show ?thesis using a b by simp
  qed
qed

lemma speaker_match:
  assumes "e \<in> set (rm SPEAKER_REGEX t s)"
  shows "(s = 0 \<or> t ! (s - 1) = LF)
     \<and> s < length t \<and> is_space (t ! s)
     \<and> (\<exists>q q'. (q = Suc s \<or> (q = Suc (Suc s) \<and> is_space (t ! Suc s)))
           \<and> q' \<le> e
           \<and> (slice t q q' \<in> set HONORIFIC_TOKENS \<and> q' < e \<and> is_space (t ! q')
              \<or> map space_of (slice t q q') \<in> set ROLE_TOKENS
                 \<and> e \<in> set (rm (seq [paren_aside, chr (CHR ''.'')]) t q')))
     \<and> s < e \<and> e \<le> length t \<and> t ! (e - 1) = CHR ''.''"
proof -
  from assms obtain a q where a: "a \<in> set (rm Bol t s)"
    and q: "q \<in> set (rm (Rep ws 1 (Some 2)) t a)"
    and e: "e \<in> set (rm (Alt NAMED_SPEAKER ROLE_SPEAKER) t q)"
    unfolding SPEAKER_REGEX_def rm_seq_Cons rm_seq_Nil by auto
  have bol: "a = s" "s = 0 \<or> t ! (s - 1) = LF" using a by (auto split: if_splits)
  note sp = leading_space_match[OF q[unfolded bol(1)]]
  have ql: "q \<le> length t" using sp by auto
  have sq: "s < q" using sp by auto
  have qe: "q \<le> e" using e by (rule rm_ge)
  from e have "e \<in> set (rm NAMED_SPEAKER t q) \<or> e \<in> set (rm ROLE_SPEAKER t q)"
    by (simp only: rm_Alt_iff)
  then have "(\<exists>q'. q' \<le> e
           \<and> (slice t q q' \<in> set HONORIFIC_TOKENS \<and> q' < e \<and> is_space (t ! q')
              \<or> map space_of (slice t q q') \<in> set ROLE_TOKENS
                 \<and> e \<in> set (rm (seq [paren_aside, chr (CHR ''.'')]) t q')))
     \<and> 0 < e \<and> e \<le> length t \<and> t ! (e - 1) = CHR ''.''"
  proof
    assume "e \<in> set (rm NAMED_SPEAKER t q)"
    from named_speaker_match[OF this ql] show ?thesis by (meson less_imp_le)
  next
    assume "e \<in> set (rm ROLE_SPEAKER t q)"
    from role_speaker_match[OF this ql] show ?thesis by blast
  qed
  then obtain q' where q': "q' \<le> e"
      "slice t q q' \<in> set HONORIFIC_TOKENS \<and> q' < e \<and> is_space (t ! q')
              \<or> map space_of (slice t q q') \<in> set ROLE_TOKENS
                 \<and> e \<in> set (rm (seq [paren_aside, chr (CHR ''.'')]) t q')"
    and r: "0 < e" "e \<le> length t" "t ! (e - 1) = CHR ''.''" by blast
  have c: "q = Suc s \<or> (q = Suc (Suc s) \<and> is_space (t ! Suc s))" using sp by blast
  have "\<exists>q q'. (q = Suc s \<or> (q = Suc (Suc s) \<and> is_space (t ! Suc s)))
           \<and> q' \<le> e
           \<and> (slice t q q' \<in> set HONORIFIC_TOKENS \<and> q' < e \<and> is_space (t ! q')
              \<or> map space_of (slice t q q') \<in> set ROLE_TOKENS
                 \<and> e \<in> set (rm (seq [paren_aside, chr (CHR ''.'')]) t q'))"
    using c q' by blast
  moreover have "s < e" using sq qe by simp
  moreover have "s < length t" "is_space (t ! s)" using sp by blast+
  ultimately show ?thesis using bol(2) r by blast
qed

lemma speaker_event_is_match:
  "(Speaker, s, e) \<in> set (sorted_events t) \<longleftrightarrow> (s, e) \<in> set (finditer SPEAKER_REGEX t)"
proof -
  have "set (sorted_events t) = set (scan_events t)" by (simp add: sorted_events_def)
  then show ?thesis by (auto simp: scan_events_def)
qed

lemma finditer_match:
  "(s, e) \<in> set (finditer r t) \<Longrightarrow> e \<in> set (rm r t s) \<and> s \<le> length t"
  unfolding finditer_def using finditer_from_props[of s e r t 0]
  by (metis hd_in_set)

lemma strip_keeps_last:
  assumes "m \<noteq> []" "\<not> is_space (last m)"
  shows "strip m \<noteq> [] \<and> last (strip m) = last m"
proof -
  let ?d = "dropWhile is_space m"
  have m: "last m \<in> set m" using assms(1) by simp
  have d: "?d \<noteq> []" using assms(2) m by (auto simp: dropWhile_eq_Nil_conv)
  have l: "last ?d = last m" using m assms(2) by (rule dropWhile_last)
  have "hd (rev ?d) = last m" using d l by (simp add: hd_rev)
  then have "dropWhile is_space (rev ?d) = rev ?d"
    using d assms(2) by (cases "rev ?d") auto
  then have "strip m = ?d" by (simp add: strip_def)
  then show ?thesis using d l by simp
qed

lemma label_plus_dot:
  assumes "s < e" "e \<le> length t" "t ! (e - 1) = CHR ''.''"
  shows "speaker_label t s e @ ''.'' = strip (slice t s e)"
proof -
  let ?m = "slice t s e"
  have len: "length ?m = e - s" using assms by (simp add: slice_def)
  then have ne: "?m \<noteq> []" using assms(1) by auto
  have "last ?m = ?m ! (length ?m - 1)" using ne by (rule last_conv_nth)
  also have "\<dots> = t ! (e - 1)" using assms len by (simp add: slice_def)
  finally have l: "last ?m = CHR ''.''" using assms(3) by simp
  then have ns: "\<not> is_space (last ?m)" by (simp add: is_space_def)
  note k = strip_keeps_last[OF ne ns]
  have "butlast (strip ?m) @ [last (strip ?m)] = strip ?m"
    using k by (intro append_butlast_last_id) blast
  moreover have "last (strip ?m) = CHR ''.''" using k l by simp
  ultimately show ?thesis by (simp add: speaker_label_def)
qed

lemma assemble_speaker:
  "x \<in> set (assemble T cur evs) \<Longrightarrow>
     (\<exists>sp st. cur = Some (sp, st) \<and> speaker x = sp)
     \<or> (\<exists>s e. (Speaker, s, e) \<in> set evs \<and> speaker x = speaker_label T s e)"
proof (induction T cur evs rule: assemble.induct)
  case (1 T cur)
  then show ?case by (auto simp: close_turn_def split: option.splits)
next
  case (2 T cur s e evs)
  from 2(2) have "(\<exists>sp st. cur = Some (sp, st) \<and> x = close_turn T sp st s)
      \<or> x \<in> set (assemble T (Some (speaker_label T s e, e)) evs)"
    by (auto split: option.splits)
  then show ?case
  proof
    assume "\<exists>sp st. cur = Some (sp, st) \<and> x = close_turn T sp st s"
    then show ?thesis by (auto simp: close_turn_def)
  next
    assume "x \<in> set (assemble T (Some (speaker_label T s e, e)) evs)"
    from 2(1)[OF this] show ?thesis by auto
  qed
next
  case (3 T cur s e evs)
  show ?case
  proof (cases cur)
    case None
    then have "x \<in> set (assemble T None evs)" using 3(3) by simp
    from 3(1)[OF None this] show ?thesis by auto
  next
    case (Some p)
    obtain sp st where p: "p = (sp, st)" by (cases p)
    from 3(3) have "x = close_turn T sp st s \<or> x \<in> set (assemble T None evs)"
      using Some p by simp
    then show ?thesis
    proof
      assume "x = close_turn T sp st s"
      then show ?thesis using Some p by (simp add: close_turn_def)
    next
      assume "x \<in> set (assemble T None evs)"
      from 3(2)[OF Some p[symmetric] this] show ?thesis by auto
    qed
  qed
qed

text \<open>
  C9, amended. Every speaker event is a match of \<^verbatim>\<open>SPEAKER_REGEX\<close>: it starts at the start of
  a line (offset 0 or right after a line feed) with one or two whitespace characters of
  the class \<^verbatim>\<open>\s\<close>. These are followed either by one of the honorifics \<open>Mr.\<close>, \<open>Mrs.\<close>, \<open>Ms.\<close>,
  \<open>Miss\<close>, \<open>Chairman\<close>, \<open>Chairwoman\<close>, \<open>HON.\<close>, \<open>Dr.\<close> and a whitespace character, or by one of
  the fixed role phrases (\<open>The CLERK\<close>, \<open>The Acting CHAIR\<close>, \<open>The ACTING CHAIR\<close>, \<open>The CHAIR\<close>,
  \<open>The CHAIRMAN\<close>, \<open>The PRESIDING OFFICER\<close>, \<open>The SPEAKER\<close>, \<open>The VICE PRESIDENT\<close>,
  \<open>The CHIEF JUSTICE\<close>, \<open>The PRESIDENT pro tempore\<close>, \<open>The ACTING PRESIDENT pro tempore\<close>, and
  \<open>The CHAIRMAN\<close> or \<open>The SPEAKER\<close> with \<open>pro tempore\<close>, each gap between two words being one
  whitespace character), after which come only an optional parenthetical aside and the
  final period. The last character of the match is a period. The label of the event is the
  matched text, trimmed of whitespace at both ends, without that last period; and the
  speaker of every emitted turn is the label of a speaker event.
\<close>

theorem speaker_event_shape_and_label:
  "(\<forall>s e. (Speaker, s, e) \<in> set (sorted_events t) \<longrightarrow>
      (s, e) \<in> set (finditer SPEAKER_REGEX t)
      \<and> (s = 0 \<or> t ! (s - 1) = LF)
      \<and> s < length t \<and> is_space (t ! s)
      \<and> (\<exists>q q'. (q = Suc s \<or> (q = Suc (Suc s) \<and> is_space (t ! Suc s)))
            \<and> q' \<le> e
            \<and> (slice t q q' \<in> set HONORIFIC_TOKENS \<and> q' < e \<and> is_space (t ! q')
               \<or> map space_of (slice t q q') \<in> set ROLE_TOKENS
                  \<and> e \<in> set (rm (seq [paren_aside, chr (CHR ''.'')]) t q')))
      \<and> s < e \<and> e \<le> length t \<and> t ! (e - 1) = CHR ''.''
      \<and> speaker_label t s e @ ''.'' = strip (slice t s e))
   \<and> (\<forall>x\<in>set (scrape_turns raw).
        \<exists>s e. (Speaker, s, e) \<in> set (sorted_events (replace_nbsp (strip_note_blocks raw)))
          \<and> speaker x = speaker_label (replace_nbsp (strip_note_blocks raw)) s e)"
proof -
  have a: "(s, e) \<in> set (finditer SPEAKER_REGEX t)
      \<and> (s = 0 \<or> t ! (s - 1) = LF)
      \<and> s < length t \<and> is_space (t ! s)
      \<and> (\<exists>q q'. (q = Suc s \<or> (q = Suc (Suc s) \<and> is_space (t ! Suc s)))
            \<and> q' \<le> e
            \<and> (slice t q q' \<in> set HONORIFIC_TOKENS \<and> q' < e \<and> is_space (t ! q')
               \<or> map space_of (slice t q q') \<in> set ROLE_TOKENS
                  \<and> e \<in> set (rm (seq [paren_aside, chr (CHR ''.'')]) t q')))
      \<and> s < e \<and> e \<le> length t \<and> t ! (e - 1) = CHR ''.''
      \<and> speaker_label t s e @ ''.'' = strip (slice t s e)"
    if "(Speaker, s, e) \<in> set (sorted_events t)" for s e
  proof -
    have m: "(s, e) \<in> set (finditer SPEAKER_REGEX t)" using that by (simp add: speaker_event_is_match)
    have "e \<in> set (rm SPEAKER_REGEX t s)" using finditer_match[OF m] by simp
    note sm = speaker_match[OF this]
    have "speaker_label t s e @ ''.'' = strip (slice t s e)"
      using sm by (intro label_plus_dot) blast+
    then show ?thesis using m sm by blast
  qed
  have b: "\<exists>s e. (Speaker, s, e) \<in> set (sorted_events (replace_nbsp (strip_note_blocks raw)))
          \<and> speaker x = speaker_label (replace_nbsp (strip_note_blocks raw)) s e"
    if "x \<in> set (scrape_turns raw)" for x
    using assemble_speaker[of x "replace_nbsp (strip_note_blocks raw)" None] that
    by (simp add: scrape_turns_def Let_def)
  show ?thesis using a b by blast
qed

lemma initial_example_length: "length initial_example = 22"
  by code_simp

lemma initial_example_prepared: "replace_nbsp (strip_note_blocks initial_example) = initial_example"
  by code_simp

lemma initial_example_events: "sorted_events initial_example = [(Speaker, 0, 15)]"
  by code_simp

lemma initial_example_label: "speaker_label initial_example 0 15 = ''Mr. SMITH A.''"
  by code_simp

lemma initial_example_turn:
  "close_turn initial_example ''Mr. SMITH A.'' 15 22 =
     \<lparr> speaker = ''Mr. SMITH A.'', span_start = 15, span_end = 22, speech = ''Hello'' \<rparr>"
  by code_simp

lemma initial_example_turns:
  "scrape_turns initial_example =
     [\<lparr> speaker = ''Mr. SMITH A.'', span_start = 15, span_end = 22, speech = ''Hello'' \<rparr>]"
  unfolding scrape_turns_def Let_def initial_example_prepared initial_example_events
  by (simp add: initial_example_label initial_example_turn initial_example_length)

lemma tab_example_prepared: "replace_nbsp (strip_note_blocks tab_example) = tab_example"
  by code_simp

lemma tab_example_events: "sorted_events tab_example = [(Speaker, 0, 12)]"
  by code_simp

lemma tab_example_label: "speaker_label tab_example 0 12 = ''Mr. SMITH''"
  by code_simp

text \<open>
  C9, as claimed, fails. On a speaker line whose name ends with an initial followed by two
  periods the label is \<open>Mr. SMITH A.\<close>, which ends with a period. And on a line feed and a
  tab before \<open>Mr. SMITH.\<close> the match begins with these two characters, neither of them a
  space, and the label is the matched text without them and without its last period.
\<close>

theorem speaker_label_can_end_with_period:
  "scrape (''  Mr. SMITH A.. Hello'' @ [LF]) = [(''Mr. SMITH A.'', ''Hello'')]
   \<and> last ''Mr. SMITH A.'' = CHR ''.''
   \<and> sorted_events ([LF, CHR 0x09] @ ''Mr. SMITH. Hi'') = [(Speaker, 0, 12)]
   \<and> slice ([LF, CHR 0x09] @ ''Mr. SMITH. Hi'') 0 12 = [LF, CHR 0x09] @ ''Mr. SMITH.''
   \<and> speaker_label ([LF, CHR 0x09] @ ''Mr. SMITH. Hi'') 0 12 = ''Mr. SMITH''
   \<and> ''Mr. SMITH'' \<noteq> butlast ([LF, CHR 0x09] @ ''Mr. SMITH.'')"
proof -
  have a: "scrape initial_example = [(''Mr. SMITH A.'', ''Hello'')]"
    by (simp add: scrape_def initial_example_turns)
  have b: "slice tab_example 0 12 = [LF, CHR 0x09] @ ''Mr. SMITH.''" by code_simp
  have c: "''Mr. SMITH'' \<noteq> butlast ([LF, CHR 0x09] @ ''Mr. SMITH.'')" by simp
  show ?thesis
    using a b c tab_example_events tab_example_label
    unfolding initial_example_def tab_example_def by simp
qed

lemma role_example_length: "length role_example = 34"
  by code_simp

lemma role_example_prepared: "replace_nbsp (strip_note_blocks role_example) = role_example"
  by code_simp

lemma role_example_events: "sorted_events role_example = [(Speaker, 0, 26)]"
  by code_simp

lemma role_example_label: "speaker_label role_example 0 26 = ''The SPEAKER pro tempore''"
  by code_simp

lemma role_example_turn:
  "close_turn role_example ''The SPEAKER pro tempore'' 26 34 =
     \<lparr> speaker = ''The SPEAKER pro tempore'', span_start = 26, span_end = 34, speech = ''Order.'' \<rparr>"
  by code_simp

lemma role_example_turns:
  "scrape_turns role_example =
     [\<lparr> speaker = ''The SPEAKER pro tempore'', span_start = 26, span_end = 34, speech = ''Order.'' \<rparr>]"
  unfolding scrape_turns_def Let_def role_example_prepared role_example_events
  by (simp add: role_example_label role_example_turn role_example_length)

lemma role_example_phrase:
  "map space_of (slice role_example 2 25) = ''The SPEAKER pro tempore''"
  by code_simp

theorem speaker_event_shape_and_label_witness:
  "(Speaker, 0, 15) \<in> set (sorted_events initial_example)
   \<and> (0, 15) \<in> set (finditer SPEAKER_REGEX initial_example)
   \<and> is_space (initial_example ! 0)
   \<and> initial_example ! (15 - 1) = CHR ''.''
   \<and> speaker_label initial_example 0 15 @ ''.'' = strip (slice initial_example 0 15)
   \<and> speaker_label initial_example 0 15 = ''Mr. SMITH A.''
   \<and> scrape_turns initial_example =
       [\<lparr> speaker = ''Mr. SMITH A.'', span_start = 15, span_end = 22, speech = ''Hello'' \<rparr>]
   \<and> (\<exists>s e. (Speaker, s, e) \<in> set (sorted_events (replace_nbsp (strip_note_blocks initial_example)))
         \<and> speaker (hd (scrape_turns initial_example))
            = speaker_label (replace_nbsp (strip_note_blocks initial_example)) s e)
   \<and> (Speaker, 0, 26) \<in> set (sorted_events role_example)
   \<and> (0, 26) \<in> set (finditer SPEAKER_REGEX role_example)
   \<and> map space_of (slice role_example 2 25) = ''The SPEAKER pro tempore''
   \<and> ''The SPEAKER pro tempore'' \<in> set ROLE_TOKENS
   \<and> speaker_label role_example 0 26 @ ''.'' = strip (slice role_example 0 26)
   \<and> speaker_label role_example 0 26 = ''The SPEAKER pro tempore''
   \<and> scrape role_example = [(''The SPEAKER pro tempore'', ''Order.'')]"
proof -
  have m: "(Speaker, 0, 15) \<in> set (sorted_events initial_example)"
    by (simp add: initial_example_events)
  note u = speaker_event_shape_and_label[of initial_example initial_example]
  note a = u[THEN conjunct1, rule_format, OF m]
  have x: "hd (scrape_turns initial_example) \<in> set (scrape_turns initial_example)"
    by (simp add: initial_example_turns)
  note b = u[THEN conjunct2, rule_format, OF x]
  have m': "(Speaker, 0, 26) \<in> set (sorted_events role_example)"
    by (simp add: role_example_events)
  note a' = speaker_event_shape_and_label[of role_example role_example, THEN conjunct1, rule_format, OF m']
  have r: "''The SPEAKER pro tempore'' \<in> set ROLE_TOKENS" by (simp add: ROLE_TOKENS_def)
  have s: "scrape role_example = [(''The SPEAKER pro tempore'', ''Order.'')]"
    by (simp add: scrape_def role_example_turns)
  show ?thesis
    using m a b initial_example_label initial_example_turns m' a' r s role_example_phrase
      role_example_label
    by blast
qed

subsection \<open>The artifact stripper\<close>

lemma rm_rep_sym_elim:
  "j \<in> set (rm (Rep (Sym P) lo hi) t i) \<Longrightarrow> i \<le> m \<Longrightarrow> m < j \<Longrightarrow> P (t ! m)"
proof (induction "length t - i" arbitrary: i lo hi rule: less_induct)
  case less
  from less.prems(1) show ?case
  proof (cases rule: rm_Rep_cases)
    case 1
    then show ?thesis using less.prems by simp
  next
    case (2 q)
    have q: "q = Suc i" "i < length t" "P (t ! i)" using 2(2) by (simp_all add: rm_Sym_iff)
    show ?thesis
    proof (cases "m = i")
      case True
      then show ?thesis using q by simp
    next
      case False
      then have "q \<le> m" using less.prems(2) q by simp
      moreover have "length t - q < length t - i" using q by simp
      ultimately show ?thesis using less.hyps[of q "lo - 1" "dec hi"] 2(5) less.prems(3) by blast
    qed
  qed
qed

lemma rm_rep_sym_intro:
  "i \<le> j \<Longrightarrow> j \<le> length t \<Longrightarrow> (\<forall>m. i \<le> m \<and> m < j \<longrightarrow> P (t ! m)) \<Longrightarrow> lo \<le> j - i
     \<Longrightarrow> j \<in> set (rm (Rep (Sym P) lo None) t i)"
proof (induction "j - i" arbitrary: i lo)
  case 0
  then have "j = i" "lo = 0" by simp_all
  then show ?case by (subst rm_Rep_iff) simp
next
  case (Suc n)
  then have ij: "i < j" by simp
  have a: "Suc i \<in> set (rm (Sym P) t i)" using Suc.prems ij by (simp add: rm_Sym_iff)
  have "j \<in> set (rm (Rep (Sym P) (lo - 1) None) t (Suc i))"
    using Suc.prems Suc.hyps(2) ij by (intro Suc.hyps(1)) auto
  then have "\<exists>q\<in>set (rm (Sym P) t i). i < q \<and> q \<le> length t
      \<and> j \<in> set (rm (Rep (Sym P) (lo - 1) (dec None)) t q)"
    using a ij Suc.prems(2) by (intro bexI[of _ "Suc i"]) auto
  then show ?case by (subst rm_Rep_iff) simp
qed

lemma tag_match_sound:
  assumes "e \<in> set (rm TAG_REGEX t p)"
  shows "p < length t \<and> t ! p = CHR ''<'' \<and> Suc p < length t \<and> t ! Suc p \<noteq> CHR ''>''
     \<and> p < e \<and> e \<le> length t \<and> t ! (e - 1) = CHR ''>''"
proof -
  from assms obtain a b c where a: "a \<in> set (rm (chr (CHR ''<'')) t p)"
    and b: "b \<in> set (rm (opt (chr (CHR ''/''))) t a)"
    and c: "c \<in> set (rm (plus (ncls ''>'')) t b)"
    and e: "e \<in> set (rm (chr (CHR ''>'')) t c)"
    unfolding TAG_REGEX_def rm_seq_Cons rm_seq_Nil by auto
  have a': "a = Suc p" "p < length t" "t ! p = CHR ''<''" using a by (simp_all add: rm_chr_iff)
  have e': "e = Suc c" "c < length t" "t ! c = CHR ''>''" using e by (simp_all add: rm_chr_iff)
  have bc: "b < c" using c unfolding plus_def by (intro rm_consumes) (simp_all add: ncls_def)
  have nb: "\<And>m. b \<le> m \<Longrightarrow> m < c \<Longrightarrow> t ! m \<noteq> CHR ''>''"
    using rm_rep_sym_elim[OF c[unfolded plus_def ncls_def]] by simp
  from b have "b = a \<or> (b \<in> set (rm (chr (CHR ''/'')) t a) \<and> a < b)" unfolding rm_opt_iff by blast
  then have "t ! Suc p \<noteq> CHR ''>'' \<and> Suc p < length t"
  proof
    assume "b = a"
    then show ?thesis using nb[of b] bc a' e' by simp
  next
    assume "b \<in> set (rm (chr (CHR ''/'')) t a) \<and> a < b"
    then have "t ! a = CHR ''/''" "a < length t" by (simp_all add: rm_chr_iff)
    then show ?thesis using a' by simp
  qed
  moreover have "a \<le> b" using b by (rule rm_ge)
  ultimately show ?thesis using a' e' bc by simp
qed

lemma tag_match_complete:
  assumes "t ! p = CHR ''<''" "Suc p < k" "k < length t" "t ! k = CHR ''>''"
    "\<forall>m. p < m \<and> m < k \<longrightarrow> t ! m \<noteq> CHR ''>''"
  shows "Suc k \<in> set (rm TAG_REGEX t p)"
proof -
  have a: "Suc p \<in> set (rm (chr (CHR ''<'')) t p)" using assms by (simp add: rm_chr_iff)
  have b: "Suc p \<in> set (rm (opt (chr (CHR ''/''))) t (Suc p))" by (simp add: rm_opt_iff)
  have c: "k \<in> set (rm (plus (ncls ''>'')) t (Suc p))"
    unfolding plus_def ncls_def using assms by (intro rm_rep_sym_intro) auto
  have e: "Suc k \<in> set (rm (chr (CHR ''>'')) t k)" using assms by (simp add: rm_chr_iff)
  show ?thesis unfolding TAG_REGEX_def rm_seq_Cons rm_seq_Nil using a b c e by blast
qed

lemma tag_match_iff: "rm TAG_REGEX t p \<noteq> [] \<longleftrightarrow> tagp t p"
proof
  assume "rm TAG_REGEX t p \<noteq> []"
  then obtain e where e: "e \<in> set (rm TAG_REGEX t p)" by (meson last_in_set)
  note s = tag_match_sound[OF e]
  have "e - 1 \<noteq> p" using s by auto
  then have pe: "p < e - 1" using s by linarith
  have "e - 1 < length t" using s by linarith
  then show "tagp t p" using s pe unfolding tagp_def by (intro conjI exI[of _ "e - 1"]) auto
next
  assume a: "tagp t p"
  define k where "k = (LEAST k. p < k \<and> k < length t \<and> t ! k = CHR ''>'')"
  have ex: "\<exists>k. p < k \<and> k < length t \<and> t ! k = CHR ''>''" using a by (simp add: tagp_def)
  have k: "p < k \<and> k < length t \<and> t ! k = CHR ''>''"
    unfolding k_def using ex by (rule LeastI_ex)
  have least: "\<And>m. p < m \<and> m < k \<Longrightarrow> t ! m \<noteq> CHR ''>''"
  proof
    fix m
    assume m: "p < m \<and> m < k" and "t ! m = CHR ''>''"
    then have "p < m \<and> m < length t \<and> t ! m = CHR ''>''" using k by simp
    then have "k \<le> m" unfolding k_def by (rule Least_le)
    then show False using m by simp
  qed
  have "k \<noteq> Suc p" using a k by (auto simp: tagp_def)
  then have "Suc p < k" using k by simp
  then have "Suc k \<in> set (rm TAG_REGEX t p)"
    using a k least by (intro tag_match_complete) (auto simp: tagp_def)
  then show "rm TAG_REGEX t p \<noteq> []" by auto
qed

lemma tagp_Cons_Suc: "tagp (c # w) (Suc p) \<longleftrightarrow> tagp w p"
proof
  assume "tagp (c # w) (Suc p)"
  then obtain k where k: "Suc p < k" "k < length (c # w)" "(c # w) ! k = CHR ''>''"
    and r: "Suc p < length w" "w ! p = CHR ''<''" "w ! Suc p \<noteq> CHR ''>''"
    by (auto simp: tagp_def)
  then have "p < k - 1 \<and> k - 1 < length w \<and> w ! (k - 1) = CHR ''>''"
    by (cases k) auto
  then show "tagp w p" using r unfolding tagp_def by blast
next
  assume "tagp w p"
  then obtain k where k: "p < k" "k < length w" "w ! k = CHR ''>''"
    and r: "Suc p < length w" "w ! p = CHR ''<''" "w ! Suc p \<noteq> CHR ''>''"
    by (auto simp: tagp_def)
  have "Suc p < Suc k \<and> Suc k < length (c # w) \<and> (c # w) ! Suc k = CHR ''>''" using k by simp
  then show "tagp (c # w) (Suc p)" using r unfolding tagp_def by (intro conjI exI[of _ "Suc k"]) auto
qed

lemma remove_matches_step:
  assumes "j < length u" "ms = [] \<or> Suc j \<le> fst (hd ms)"
  shows "remove_matches ms u j = u ! j # remove_matches ms u (Suc j)"
proof (cases ms)
  case Nil
  then show ?thesis using assms(1) by (simp add: Cons_nth_drop_Suc)
next
  case (Cons m ms')
  obtain s e where m: "m = (s, e)" by (cases m)
  have s: "Suc j \<le> s" using assms(2) Cons m by simp
  then have "s - j = Suc (s - Suc j)" by simp
  then have "slice u j s = u ! j # slice u (Suc j) s"
    using assms(1) by (simp add: slice_def Cons_nth_drop_Suc[symmetric])
  then show ?thesis using Cons m by simp
qed

lemma finditer_from_hd:
  "finditer_from r u i = [] \<or> i \<le> fst (hd (finditer_from r u i))"
proof (cases "finditer_from r u i")
  case Nil
  then show ?thesis by simp
next
  case (Cons m ms)
  obtain s e where m: "m = (s, e)" by (cases m)
  have "(s, e) \<in> set (finditer_from r u i)" using Cons m by simp
  then have "i \<le> s" using finditer_from_props by blast
  then show ?thesis using Cons m by simp
qed

lemma residue_past: "length u < j \<Longrightarrow> residue r u j = []"
  by (simp add: residue_def finditer_from_past)

lemma residue_no_match:
  assumes "j < length u" "rm r u j = []"
  shows "residue r u j = u ! j # residue r u (Suc j)"
proof -
  have le: "j \<le> length u" using assms(1) by simp
  show ?thesis
    unfolding residue_def finditer_from_Nil[OF le assms(2)]
    using assms(1) finditer_from_hd[of r u "Suc j"] by (rule remove_matches_step)
qed

lemma residue_end: "rm r u (length u) = [] \<Longrightarrow> residue r u (length u) = []"
  unfolding residue_def by (subst finditer_from_Nil) (simp_all add: finditer_from_past)

lemma residue_match:
  assumes "j \<le> length u" "rm r u j = e # es" "j < e"
  shows "residue r u j = residue r u e"
  unfolding residue_def finditer_from_Cons[OF assms(1,2)] using assms(3)
  by (simp add: slice_self)

lemma consumes_TAG: "consumes TAG_REGEX"
  by (simp add: TAG_REGEX_def seq_def chr_def)

lemma not_tagp_Nil: "\<not> tagp [] p"
  by (simp add: tagp_def)

lemma gt_in_drop:
  "CHR ''>'' \<in> set (drop n u) \<Longrightarrow> \<exists>k. n \<le> k \<and> k < length u \<and> u ! k = CHR ''>''"
proof -
  assume "CHR ''>'' \<in> set (drop n u)"
  then obtain i where i: "i < length (drop n u)" "drop n u ! i = CHR ''>''"
    by (auto simp: in_set_conv_nth)
  then have "n + i < length u \<and> u ! (n + i) = CHR ''>''" by simp
  then show ?thesis by (intro exI[of _ "n + i"]) simp
qed

lemma residue_tag_free:
  "(\<forall>p. \<not> tagp (residue TAG_REGEX u j) p) \<and> set (residue TAG_REGEX u j) \<subseteq> set (drop j u)"
proof (induction "Suc (length u) - j" arbitrary: j rule: less_induct)
  case less
  consider (past) "length u < j" | (last) "j = length u"
    | (none) "j < length u" "rm TAG_REGEX u j = []"
    | (hit) e es where "j < length u" "rm TAG_REGEX u j = e # es"
  proof -
    assume a: "length u < j \<Longrightarrow> thesis" "j = length u \<Longrightarrow> thesis"
      "j < length u \<Longrightarrow> rm TAG_REGEX u j = [] \<Longrightarrow> thesis"
      "\<And>e es. j < length u \<Longrightarrow> rm TAG_REGEX u j = e # es \<Longrightarrow> thesis"
    consider "length u < j" | "j = length u" | "j < length u" by linarith
    then show thesis
    proof cases
      case 3
      then show ?thesis using a(3,4) by (cases "rm TAG_REGEX u j") blast+
    qed (use a in blast)+
  qed
  then show ?case
  proof cases
    case past
    then show ?thesis by (simp add: residue_past not_tagp_Nil)
  next
    case last
    have "\<not> tagp u j" using last by (simp add: tagp_def)
    then have "rm TAG_REGEX u (length u) = []" using tag_match_iff last by blast
    then show ?thesis using last by (simp add: residue_end not_tagp_Nil)
  next
    case none
    let ?w = "residue TAG_REGEX u (Suc j)"
    have w: "residue TAG_REGEX u j = u ! j # ?w" using none by (rule residue_no_match)
    have ih: "\<forall>p. \<not> tagp ?w p" "set ?w \<subseteq> set (drop (Suc j) u)"
      using less.hyps[of "Suc j"] none(1) by simp_all
    have nt: "\<not> tagp u j" using none(2) tag_match_iff by blast
    have zero: "\<not> tagp (u ! j # ?w) 0"
    proof
      assume a: "tagp (u ! j # ?w) 0"
      then have c: "u ! j = CHR ''<''" and ne: "?w \<noteq> []" and w0: "?w ! 0 \<noteq> CHR ''>''"
        by (auto simp: tagp_def)
      from a obtain k where k: "0 < k" "k < length (u ! j # ?w)" "(u ! j # ?w) ! k = CHR ''>''"
        by (auto simp: tagp_def)
      then have "?w ! (k - 1) = CHR ''>''" "k - 1 < length ?w" by (cases k; simp)+
      then have "CHR ''>'' \<in> set ?w" by (metis nth_mem)
      then have "CHR ''>'' \<in> set (drop (Suc j) u)" using ih(2) by blast
      then obtain k' where k': "Suc j \<le> k'" "k' < length u" "u ! k' = CHR ''>''"
        using gt_in_drop by blast
      then have "\<exists>k. j < k \<and> k < length u \<and> u ! k = CHR ''>''" by (intro exI[of _ k']) simp
      then have "\<not> Suc j < length u \<or> u ! Suc j = CHR ''>''"
        using nt c by (auto simp: tagp_def)
      then have "Suc j < length u \<and> u ! Suc j = CHR ''>''" using k' by auto
      then have sj: "Suc j < length u" "u ! Suc j = CHR ''>''" by simp_all
      then have "\<not> tagp u (Suc j)" by (simp add: tagp_def)
      then have "rm TAG_REGEX u (Suc j) = []" using tag_match_iff by blast
      then have "?w = u ! Suc j # residue TAG_REGEX u (Suc (Suc j))"
        using sj(1) by (intro residue_no_match)
      then have "?w ! 0 = CHR ''>''" using sj(2) by simp
      then show False using w0 by simp
    qed
    have "\<not> tagp (u ! j # ?w) p" for p
    proof (cases p)
      case 0
      then show ?thesis using zero by simp
    next
      case (Suc p')
      then show ?thesis using ih(1) by (simp add: tagp_Cons_Suc)
    qed
    moreover have "set (u ! j # ?w) \<subseteq> set (drop j u)"
      using ih(2) none(1) by (subst Cons_nth_drop_Suc[symmetric]) auto
    ultimately show ?thesis unfolding w by blast
  next
    case hit
    have "e \<in> set (rm TAG_REGEX u j)" using hit(2) by simp
    then have je: "j < e" using consumes_TAG rm_consumes by blast
    have w: "residue TAG_REGEX u j = residue TAG_REGEX u e"
      using hit je by (intro residue_match) simp_all
    have "Suc (length u) - e < Suc (length u) - j" using je hit(1) by simp
    then have ih: "\<forall>p. \<not> tagp (residue TAG_REGEX u e) p"
      "set (residue TAG_REGEX u e) \<subseteq> set (drop e u)"
      using less.hyps[of e] by simp_all
    have "set (drop e u) \<subseteq> set (drop j u)" using je by (intro set_drop_subset_set_drop) simp
    then show ?thesis unfolding w using ih by blast
  qed
qed

lemma finditer_from_none: "(\<And>p. rm r t p = []) \<Longrightarrow> finditer_from r t i = []"
proof (induction "Suc (length t) - i" arbitrary: i rule: less_induct)
  case less
  show ?case
  proof (cases "length t < i")
    case True
    then show ?thesis by (rule finditer_from_past)
  next
    case False
    then have le: "i \<le> length t" by simp
    have "finditer_from r t i = finditer_from r t (Suc i)"
      using le less.prems by (rule finditer_from_Nil)
    moreover have "finditer_from r t (Suc i) = []"
      using le less.prems by (intro less.hyps) simp_all
    ultimately show ?thesis by simp
  qed
qed

lemma tag_free_after_sub: "finditer TAG_REGEX (re_sub_empty TAG_REGEX u) = []"
proof -
  have "\<And>p. rm TAG_REGEX (residue TAG_REGEX u 0) p = []"
    using residue_tag_free[of u 0] tag_match_iff by blast
  then have "finditer_from TAG_REGEX (residue TAG_REGEX u 0) 0 = []"
    by (rule finditer_from_none)
  then show ?thesis
    by (simp add: finditer_def re_sub_empty_def residue_def)
qed

lemma rm_chr_ci_iff:
  "j \<in> set (rm (chr_ci c) t i) \<longleftrightarrow> j = Suc i \<and> i < length t \<and> lower_char (t ! i) = lower_char c"
  by (auto simp: chr_ci_def)

lemma rm_lit_ci:
  "j \<in> set (rm (lit_ci s) t i) \<Longrightarrow> i \<le> length t \<Longrightarrow>
     j = i + length s \<and> j \<le> length t \<and> (\<forall>n<length s. lower_char (t ! (i + n)) = lower_char (s ! n))"
proof (induction s arbitrary: i)
  case Nil
  then show ?case by (simp add: lit_ci_def rm_seq_Nil)
next
  case (Cons c s)
  from Cons.prems obtain q where q: "q \<in> set (rm (chr_ci c) t i)" "j \<in> set (rm (lit_ci s) t q)"
    unfolding lit_ci_def list.map rm_seq_Cons by blast
  have q1: "q = Suc i" "i < length t" "lower_char (t ! i) = lower_char c"
    using q(1) by (simp_all add: rm_chr_ci_iff)
  have ql: "q \<le> length t" using q1 by simp
  note ih0 = Cons.IH[OF q(2) ql]
  have ih: "j = q + length s" "j \<le> length t"
    "\<And>n. n < length s \<Longrightarrow> lower_char (t ! (q + n)) = lower_char (s ! n)"
    using ih0 by blast+
  have "lower_char (t ! (i + n)) = lower_char ((c # s) ! n)" if "n < length (c # s)" for n
  proof (cases n)
    case 0
    then show ?thesis using q1 by simp
  next
    case (Suc m)
    then show ?thesis using ih(3)[of m] that q1 by simp
  qed
  then show ?case using ih q1 by simp
qed

lemma rm_lit_ci_nonempty: "j \<in> set (rm (lit_ci (c # s)) t i) \<Longrightarrow> i < length t"
  unfolding lit_ci_def list.map rm_seq_Cons by (auto simp: rm_chr_ci_iff)

lemma lower_char_range:
  "lower_char x = x \<or> lower_char x \<in> set (ascii_lower @ latin_lower)"
proof (cases "map_of (zip (ascii_upper @ latin_upper) (ascii_lower @ latin_lower)) x")
  case None
  then show ?thesis by (simp add: lower_char_def)
next
  case (Some l)
  then have "(x, l) \<in> set (zip (ascii_upper @ latin_upper) (ascii_lower @ latin_lower))"
    by (rule map_of_SomeD)
  then have "l \<in> set (ascii_lower @ latin_lower)" by (rule set_zip_rightD)
  then show ?thesis using Some by (simp add: lower_char_def)
qed

lemma not_lower_lt: "CHR ''<'' \<notin> set (ascii_lower @ latin_lower)"
  by (simp add: ascii_lower_def latin_lower_def)

lemma not_lower_gt: "CHR ''>'' \<notin> set (ascii_lower @ latin_lower)"
  by (simp add: ascii_lower_def latin_lower_def)

lemma lower_char_lt: "lower_char (CHR ''<'') = CHR ''<''"
  by code_simp

lemma lower_char_gt: "lower_char (CHR ''>'') = CHR ''>''"
  by code_simp

lemma lower_char_t: "lower_char (CHR ''t'') = CHR ''t''"
  by code_simp

lemma lower_is_lt: "lower_char x = CHR ''<'' \<Longrightarrow> x = CHR ''<''"
  using lower_char_range[of x] not_lower_lt by auto

lemma lower_is_gt: "lower_char x = CHR ''>'' \<Longrightarrow> x = CHR ''>''"
  using lower_char_range[of x] not_lower_gt by auto

lemma title_match_is_tag:
  assumes "e \<in> set (rm TITLE_TAG_REGEX t p)" "p \<le> length t"
  shows "tagp t p"
proof -
  from assms(1) obtain q rest where q: "q \<in> set (rm (lit_ci ''<title>'') t p)"
    unfolding TITLE_TAG_REGEX_def rm_seq_Cons[of e "lit_ci ''<title>''"] by blast
  note l = rm_lit_ci[OF q assms(2)]
  have len: "p + 7 \<le> length t" using l by simp
  have c: "\<And>n. n < 7 \<Longrightarrow> lower_char (t ! (p + n)) = lower_char (''<title>'' ! n)"
    using l by simp
  have c0: "t ! p = CHR ''<''" using c[of 0] by (simp add: lower_char_lt lower_is_lt)
  have c1: "lower_char (t ! Suc p) = CHR ''t''" using c[of 1] by (simp add: lower_char_t)
  have c1': "t ! Suc p \<noteq> CHR ''>''" using c1 lower_char_gt by auto
  have c6: "t ! (p + 6) = CHR ''>''" using c[of 6] by (simp add: lower_char_gt lower_is_gt)
  have "p < p + 6 \<and> p + 6 < length t \<and> t ! (p + 6) = CHR ''>''" using len c6 by simp
  then show ?thesis unfolding tagp_def using c0 c1' len by (intro conjI exI[of _ "p + 6"]) auto
qed

lemma title_free_if_tag_free:
  assumes "finditer TAG_REGEX w = []"
  shows "finditer TITLE_TAG_REGEX w = []"
proof -
  have n: "rm TAG_REGEX w p = []" if "p \<le> length w" for p
  proof (rule ccontr)
    assume a: "rm TAG_REGEX w p \<noteq> []"
    obtain e es where e: "rm TAG_REGEX w p = e # es" using a by (cases "rm TAG_REGEX w p") auto
    have "\<And>i. i \<le> p \<Longrightarrow> finditer_from TAG_REGEX w i \<noteq> []"
    proof -
      fix i
      assume "i \<le> p"
      then show "finditer_from TAG_REGEX w i \<noteq> []"
      proof (induction "p - i" arbitrary: i)
        case 0
        then have "i = p" by simp
        then show ?case using finditer_from_Cons[OF that e] by simp
      next
        case (Suc n)
        then have il: "i \<le> length w" using that by simp
        show ?case
        proof (cases "rm TAG_REGEX w i")
          case Nil
          have "finditer_from TAG_REGEX w (Suc i) \<noteq> []" using Suc by (intro Suc.hyps(1)) auto
          then show ?thesis using finditer_from_Nil[OF il Nil] by simp
        next
          case (Cons a as)
          then show ?thesis using finditer_from_Cons[OF il Cons] by simp
        qed
      qed
    qed
    then show False using assms by (simp add: finditer_def)
  qed
  have "rm TITLE_TAG_REGEX w p = []" for p
  proof (rule ccontr)
    assume a: "rm TITLE_TAG_REGEX w p \<noteq> []"
    then obtain e where e: "e \<in> set (rm TITLE_TAG_REGEX w p)" by (meson last_in_set)
    from e obtain q where "q \<in> set (rm (lit_ci ''<title>'') w p)"
      unfolding TITLE_TAG_REGEX_def rm_seq_Cons[of e "lit_ci ''<title>''"] by blast
    then have "p < length w" by (rule rm_lit_ci_nonempty)
    then have pl: "p \<le> length w" by simp
    have "tagp w p" using e pl by (rule title_match_is_tag)
    then have "rm TAG_REGEX w p \<noteq> []" using tag_match_iff by blast
    then show False using n[OF pl] by simp
  qed
  then have "finditer_from TITLE_TAG_REGEX w 0 = []" by (rule finditer_from_none)
  then show ?thesis by (simp add: finditer_def)
qed

lemma re_sub_empty_no_match: "finditer r w = [] \<Longrightarrow> re_sub_empty r w = w"
  by (simp add: re_sub_empty_def)

lemma clean_extraneous_passes:
  "clean_extraneous t =
     re_sub_empty TAG_REGEX (re_sub_empty TITLE_TAG_REGEX (re_sub_empty PAGE_REGEX
       (re_sub_empty ROLL_REGEX (re_sub_empty TIME_REGEX (re_sub_empty RULE_REGEX
         (re_sub_empty PERMISSION_REGEX t))))))"
  by (simp add: clean_extraneous_def EXTRAS_PATTERNS_def)

text \<open>
  C5, amended. The stripper is one substitution pass for each pattern, in list order. The
  tag pattern comes last, and one pass of it leaves no match of itself; a match of the
  title-tag pattern would start with a match of the tag pattern. So for every input the
  returned text has no match of either markup-tag pattern, and a further pass of these
  two patterns changes nothing.
\<close>

theorem markup_tags_removed_exhaustively:
  "clean_extraneous t =
     re_sub_empty TAG_REGEX (re_sub_empty TITLE_TAG_REGEX (re_sub_empty PAGE_REGEX
       (re_sub_empty ROLL_REGEX (re_sub_empty TIME_REGEX (re_sub_empty RULE_REGEX
         (re_sub_empty PERMISSION_REGEX t))))))
   \<and> finditer TAG_REGEX (clean_extraneous t) = []
   \<and> finditer TITLE_TAG_REGEX (clean_extraneous t) = []
   \<and> re_sub_empty TAG_REGEX (clean_extraneous t) = clean_extraneous t
   \<and> re_sub_empty TITLE_TAG_REGEX (clean_extraneous t) = clean_extraneous t"
proof -
  have a: "finditer TAG_REGEX (clean_extraneous t) = []"
    unfolding clean_extraneous_passes by (rule tag_free_after_sub)
  have b: "finditer TITLE_TAG_REGEX (clean_extraneous t) = []"
    using a by (rule title_free_if_tag_free)
  show ?thesis
    using a b re_sub_empty_no_match[OF a] re_sub_empty_no_match[OF b] clean_extraneous_passes[of t]
    by simp
qed

text \<open>
  C5, as claimed, fails for the page-break pattern: removing the inner bracket of
  \<open>[[Page [[Page 1]]1]]\<close> joins the text around it to \<open>[[Page 1]]\<close>, which the single pass
  has already gone past. The returned text holds a match of the pattern, and a second
  application of the stripper removes it.
\<close>

theorem page_break_pattern_not_exhaustive:
  "clean_extraneous ''[[Page [[Page 1]]1]]'' = ''[[Page 1]]''
   \<and> finditer PAGE_REGEX ''[[Page 1]]'' = [(0, 10)]
   \<and> finditer PAGE_REGEX (clean_extraneous ''[[Page [[Page 1]]1]]'') \<noteq> []
   \<and> clean_extraneous (clean_extraneous ''[[Page [[Page 1]]1]]'') = []
   \<and> clean_extraneous (clean_extraneous ''[[Page [[Page 1]]1]]'')
       \<noteq> clean_extraneous ''[[Page [[Page 1]]1]]''"
proof -
  have a: "clean_extraneous ''[[Page [[Page 1]]1]]'' = ''[[Page 1]]''" by code_simp
  have b: "finditer PAGE_REGEX ''[[Page 1]]'' = [(0, 10)]" by code_simp
  have c: "clean_extraneous ''[[Page 1]]'' = []" by code_simp
  show ?thesis unfolding a b c by simp
qed

end
